theory Spec2Isabelle
  imports Complex_Main
begin

section \<open>Double-precision arithmetic\<close>

text \<open>
  The program computes in \<open>double\<close>. A double is modelled as the real number it denotes, and
  an arithmetic operation of the source as the exact operation followed by \<open>rd\<close>, the rounding
  to the nearest double with ties to the even significand (53 significant bits, least
  binary exponent -1022, so that the spacing of the subnormal doubles is \<open>2 ^ -1074\<close>).
  \<open>ilog2 x\<close> is the binary exponent of a positive \<open>x\<close>. Results too large in magnitude for a
  finite double are outside the model.
\<close>

definition pow2 :: "int \<Rightarrow> real" where
  "pow2 i = (if 0 \<le> i then 2 ^ nat i else 1 / 2 ^ nat (- i))"

definition ilog2 :: "real \<Rightarrow> int" where
  "ilog2 x = (if x \<le> 0 then 0 else \<lfloor>log 2 x\<rfloor>)"

definition roundEven :: "real \<Rightarrow> int" where
  "roundEven y =
     (let f = \<lfloor>y\<rfloor>; d = y - of_int f
      in if d < 1 / 2 then f else if 1 / 2 < d then f + 1 else if even f then f else f + 1)"

definition rd :: "real \<Rightarrow> real" where
  "rd x = (let e = max (- 1022) (ilog2 \<bar>x\<bar>); q = pow2 (e - 52)
           in of_int (roundEven (x / q)) * q)"

text \<open>The doubles are the values that rounding leaves alone, below the overflow threshold.\<close>

definition isDouble :: "real \<Rightarrow> bool" where
  "isDouble x = (rd x = x \<and> \<bar>x\<bar> < pow2 1024)"


section \<open>Data model\<close>

text \<open>
  A \<open>Node*\<close> is either the null pointer or a node with an identity and two descendant
  pointers (\<open>getLfDesc\<close>, \<open>getRtDesc\<close>). The topology is fixed; everything mutable that
  hangs off a node (its branch history) lives in a store indexed by the node's identity.
\<close>

datatype node = NULL | Node nat node node

fun getLfDesc :: "node \<Rightarrow> node" where
  "getLfDesc NULL = NULL"
| "getLfDesc (Node i l r) = l"

fun getRtDesc :: "node \<Rightarrow> node" where
  "getRtDesc NULL = NULL"
| "getRtDesc (Node i l r) = r"

fun nodeIds :: "node \<Rightarrow> nat list" where
  "nodeIds NULL = []"
| "nodeIds (Node i l r) = i # nodeIds l @ nodeIds r"

text \<open>The identity of the node that has a descendant pointer to node \<open>i\<close> (\<open>getAnc\<close>);
  \<open>None\<close> is the null pointer, as for the root.\<close>

fun isNode :: "node \<Rightarrow> nat \<Rightarrow> bool" where
  "isNode NULL i = False"
| "isNode (Node j l r) i = (j = i)"

fun getAnc :: "node \<Rightarrow> nat \<Rightarrow> nat option" where
  "getAnc NULL i = None"
| "getAnc (Node j l r) i =
     (if isNode l i \<or> isNode r i then Some j
      else (case getAnc l i of Some a \<Rightarrow> Some a | None \<Rightarrow> getAnc r i))"

text \<open>Resolving a node identity to the node; \<open>NULL\<close> if the tree has no such node.\<close>

fun findNode :: "node \<Rightarrow> nat \<Rightarrow> node" where
  "findNode NULL i = NULL"
| "findNode (Node j l r) i =
     (if j = i then Node j l r
      else (case findNode l i of NULL \<Rightarrow> findNode r i | Node a b c \<Rightarrow> Node a b c))"


text \<open>What the tree and its coordinate map offer. The class is not part of the sources
  at hand; its members are taken as given values and functions.\<close>

record tree =
  root :: node
  mapStart :: "nat \<Rightarrow> real"
  time :: "nat \<Rightarrow> real"
  totalMapLength :: real
  maxRootToTipLength :: real
  mapEventToTree :: "real \<Rightarrow> nat"
  nodeByName :: "string \<Rightarrow> nat option"
  nodeMRCA :: "string \<Rightarrow> string \<Rightarrow> nat option"

text \<open>A \<open>BranchEvent*\<close> is an event identity (\<open>nat\<close>), \<open>None\<close> being the null pointer;
  the events themselves live in a store.\<close>

record 'p branchEvent =
  eventNode :: nat
  mapTime :: real
  oldEventNode :: nat
  oldMapTime :: real
  eventParams :: 'p

record branchHistory =
  eventsOnBranch :: "nat list"
  nodeEvent :: "nat option"
  ancestralNodeEvent :: "nat option"

datatype error = Exit | NullPointer | OutOfRange | NotOnBranch

record settings =
  updateEventLocationScale :: real
  updateEventRateScale :: real
  localGlobalMoveRatio :: real
  poissonRatePrior :: real

record ('p, 'd) model =
  theTree :: tree
  rngDraws :: "nat \<Rightarrow> real"
  rngPos :: nat
  histories :: "nat \<Rightarrow> branchHistory"
  events :: "nat \<Rightarrow> 'p branchEvent"
  nextEvent :: nat
  eventCollection :: "nat list"
  rootEvent :: nat
  lastEventModified :: "nat option"
  scale :: real
  readParameters :: 'p
  meanBranch :: 'd
  computeMeanBranch :: "(nat \<Rightarrow> branchHistory) \<Rightarrow> (nat \<Rightarrow> 'p branchEvent) \<Rightarrow> 'd"
  randomParameters :: "(nat \<Rightarrow> real) \<Rightarrow> nat \<Rightarrow> 'p \<times> nat"

section \<open>Branch history\<close>

text \<open>Modelled from the spec: the class BranchHistory is not among the sources. The spec
  gives it as an ordered container of the events on the branch, by map position, with the
  two cached references \<open>nodeEvent\<close> and \<open>ancestralNodeEvent\<close>, which only the propagation
  engine and the move proposer write. \<open>getLastEvent()\<close> is the most-tipward event stored
  on the branch; there is none on an empty branch.\<close>

definition getLastEvent :: "branchHistory \<Rightarrow> nat option" where
  "getLastEvent h = (if eventsOnBranch h = [] then None else Some (last (eventsOnBranch h)))"

definition getNumberOfBranchEvents :: "branchHistory \<Rightarrow> nat" where
  "getNumberOfBranchEvents h = length (eventsOnBranch h)"

definition setNodeEvent :: "nat \<Rightarrow> nat option \<Rightarrow> ('p, 'd) model \<Rightarrow> ('p, 'd) model" where
  "setNodeEvent i e m = m\<lparr>histories := (histories m)(i := (histories m i)\<lparr>nodeEvent := e\<rparr>)\<rparr>"

definition setAncestralNodeEvent :: "nat \<Rightarrow> nat option \<Rightarrow> ('p, 'd) model \<Rightarrow> ('p, 'd) model" where
  "setAncestralNodeEvent i e m =
     m\<lparr>histories := (histories m)(i := (histories m i)\<lparr>ancestralNodeEvent := e\<rparr>)\<rparr>"

section \<open>Propagation engine\<close>

text \<open>\<open>Model::forwardSetHistoriesRecursive\<close>. Dereferencing a null pointer (\<open>p\<close> itself, or
  the ancestor of the root) is the error \<open>NullPointer\<close>.\<close>

fun forwardSetHistoriesRecursive :: "('p, 'd) model \<Rightarrow> node \<Rightarrow> error + ('p, 'd) model" where
  "forwardSetHistoriesRecursive m NULL = Inl NullPointer"
| "forwardSetHistoriesRecursive m (Node i l r) =
     (case getAnc (root (theTree m)) i of
        None \<Rightarrow> Inl NullPointer
      | Some a \<Rightarrow>
          (let lastEvent = nodeEvent (histories m a);
               m1 = setAncestralNodeEvent i lastEvent m
           in if getNumberOfBranchEvents (histories m1 i) = 0 then
                (let m2 = setNodeEvent i lastEvent m1
                 in case (if l \<noteq> NULL then forwardSetHistoriesRecursive m2 l else Inr m2) of
                      Inl e \<Rightarrow> Inl e
                    | Inr m3 \<Rightarrow>
                        (if r \<noteq> NULL then forwardSetHistoriesRecursive m3 r else Inr m3))
              else Inr m1))"

text \<open>\<open>Model::forwardSetBranchHistories\<close>.\<close>

fun forwardSetBranchHistories :: "('p, 'd) model \<Rightarrow> nat option \<Rightarrow> error + ('p, 'd) model" where
  "forwardSetBranchHistories m None = Inl NullPointer"
| "forwardSetBranchHistories m (Some x) =
     (case findNode (root (theTree m)) (eventNode (events m x)) of
        NULL \<Rightarrow> Inl NullPointer
      | Node i l r \<Rightarrow>
          (if x = rootEvent m then
             (case forwardSetHistoriesRecursive m l of
                Inl e \<Rightarrow> Inl e
              | Inr m1 \<Rightarrow> forwardSetHistoriesRecursive m1 r)
           else if Some x = getLastEvent (histories m i) then
             (let m1 = setNodeEvent i (Some x) m
              in if l \<noteq> NULL \<and> r \<noteq> NULL then
                   (case forwardSetHistoriesRecursive m1 l of
                      Inl e \<Rightarrow> Inl e
                    | Inr m2 \<Rightarrow> forwardSetHistoriesRecursive m2 r)
                 else Inr m1)
           else Inr m))"


section \<open>Collaborators of the move proposer\<close>

text \<open>Modelled from the spec: \<open>addEventToBranchHistory\<close> and \<open>popEventOffBranchHistory\<close> of
  the absent class BranchHistory. The container is ordered by map position, ties in
  insertion order; neither operation writes the cached references.\<close>

fun insertEvent :: "(nat \<Rightarrow> real) \<Rightarrow> nat \<Rightarrow> nat list \<Rightarrow> nat list" where
  "insertEvent pos e [] = [e]"
| "insertEvent pos e (y # ys) = (if pos e < pos y then e # y # ys else y # insertEvent pos e ys)"

definition addEventToBranchHistory :: "nat \<Rightarrow> nat \<Rightarrow> ('p, 'd) model \<Rightarrow> ('p, 'd) model" where
  "addEventToBranchHistory i e m =
     m\<lparr>histories := (histories m)(i := (histories m i)
        \<lparr>eventsOnBranch := insertEvent (\<lambda>k. mapTime (events m k)) e (eventsOnBranch (histories m i))\<rparr>)\<rparr>"

definition popEventOffBranchHistory :: "nat \<Rightarrow> nat \<Rightarrow> ('p, 'd) model \<Rightarrow> ('p, 'd) model" where
  "popEventOffBranchHistory i e m =
     m\<lparr>histories := (histories m)(i := (histories m i)
        \<lparr>eventsOnBranch := remove1 e (eventsOnBranch (histories m i))\<rparr>)\<rparr>"

text \<open>Modelled from the spec: \<open>getLastEvent(x)\<close> of the absent class BranchHistory, the
  event immediately rootward of \<open>x\<close> on its branch. For the first event of the branch that
  is the event in force at the branch's proximal end, \<open>ancestralNodeEvent\<close>. Asking for an
  event that is not on the branch is the error \<open>NotOnBranch\<close>.\<close>

definition getLastEventBefore :: "branchHistory \<Rightarrow> nat \<Rightarrow> error + nat option" where
  "getLastEventBefore h x =
     (if x \<notin> set (eventsOnBranch h) then Inl NotOnBranch
      else (case takeWhile (\<lambda>y. y \<noteq> x) (eventsOnBranch h) of
              [] \<Rightarrow> Inr (ancestralNodeEvent h)
            | y # ys \<Rightarrow> Inr (Some (last (y # ys)))))"

text \<open>Modelled from the spec: the random number generator (class MbRandom, absent) is a
  stream of reals in \<open>[0,1)\<close> read in sequence; \<open>uniformRv(lo, hi)\<close> is one draw scaled
  into \<open>[lo,hi)\<close>.\<close>

definition uniformRv :: "('p, 'd) model \<Rightarrow> real \<times> ('p, 'd) model" where
  "uniformRv m = (rngDraws m (rngPos m), m\<lparr>rngPos := Suc (rngPos m)\<rparr>)"

definition uniformRvRange :: "real \<Rightarrow> real \<Rightarrow> ('p, 'd) model \<Rightarrow> real \<times> ('p, 'd) model" where
  "uniformRvRange lo hi m = (lo + rngDraws m (rngPos m) * (hi - lo), m\<lparr>rngPos := Suc (rngPos m)\<rparr>)"

text \<open>Modelled from the spec: the position changes of the absent class BranchEvent. A move
  saves the current node and map time, takes the new map position (the old one plus the
  step, or a draw over the whole map) and re-resolves the owning node from it;
  \<open>revertOldMapPosition\<close> restores what was saved.\<close>

definition relocate :: "real \<Rightarrow> nat \<Rightarrow> ('p, 'd) model \<Rightarrow> ('p, 'd) model" where
  "relocate newPos e m =
     m\<lparr>events := (events m)(e := (events m e)
        \<lparr>eventNode := mapEventToTree (theTree m) newPos, mapTime := newPos,
         oldEventNode := eventNode (events m e), oldMapTime := mapTime (events m e)\<rparr>)\<rparr>"

definition moveEventLocal :: "nat \<Rightarrow> real \<Rightarrow> ('p, 'd) model \<Rightarrow> ('p, 'd) model" where
  "moveEventLocal e step m = relocate (mapTime (events m e) + step) e m"

definition moveEventGlobal :: "nat \<Rightarrow> ('p, 'd) model \<Rightarrow> ('p, 'd) model" where
  "moveEventGlobal e m =
     (let (newPos, m1) = uniformRvRange 0 (totalMapLength (theTree m)) m in relocate newPos e m1)"

definition revertOldMapPosition :: "nat \<Rightarrow> ('p, 'd) model \<Rightarrow> ('p, 'd) model" where
  "revertOldMapPosition e m =
     m\<lparr>events := (events m)(e := (events m e)
        \<lparr>eventNode := oldEventNode (events m e), mapTime := oldMapTime (events m e)\<rparr>)\<rparr>"

text \<open>Modelled from the spec: the model-specific methods, pure virtual in this class.
  \<open>setMeanBranchParameters\<close> recomputes the derived per-branch means from the current
  event configuration; a new event gets a fresh identity, the node resolved from its map
  position (or the node given), and drawn (or read) parameters; a fresh event's saved
  position is its own.\<close>

definition setMeanBranchParameters :: "('p, 'd) model \<Rightarrow> ('p, 'd) model" where
  "setMeanBranchParameters m = m\<lparr>meanBranch := computeMeanBranch m (histories m) (events m)\<rparr>"

definition newBranchEvent :: "nat \<Rightarrow> real \<Rightarrow> 'p \<Rightarrow> ('p, 'd) model \<Rightarrow> nat \<times> ('p, 'd) model" where
  "newBranchEvent x t ps m =
     (nextEvent m,
      m\<lparr>events := (events m)(nextEvent m :=
           \<lparr>eventNode = x, mapTime = t, oldEventNode = x, oldMapTime = t, eventParams = ps\<rparr>),
        nextEvent := Suc (nextEvent m)\<rparr>)"

definition newBranchEventWithRandomParameters :: "real \<Rightarrow> ('p, 'd) model \<Rightarrow> nat \<times> ('p, 'd) model" where
  "newBranchEventWithRandomParameters x m =
     (let (ps, pos) = randomParameters m (rngDraws m) (rngPos m)
      in newBranchEvent (mapEventToTree (theTree m) x) x ps (m\<lparr>rngPos := pos\<rparr>))"

definition newBranchEventWithReadParameters :: "nat \<Rightarrow> real \<Rightarrow> ('p, 'd) model \<Rightarrow> nat \<times> ('p, 'd) model" where
  "newBranchEventWithReadParameters x t m = newBranchEvent x t (readParameters m) m"

definition setRootEventWithReadParameters :: "('p, 'd) model \<Rightarrow> ('p, 'd) model" where
  "setRootEventWithReadParameters m =
     m\<lparr>events := (events m)(rootEvent m := (events m (rootEvent m))\<lparr>eventParams := readParameters m\<rparr>)\<rparr>"

text \<open>Modelled from the spec: the Event Registry (\<open>_eventCollection\<close>, a set type declared
  in the absent header) holds each event once and iterates in a fixed order, here the
  order of the identities.\<close>

definition insertCollection :: "nat \<Rightarrow> nat list \<Rightarrow> nat list" where
  "insertCollection e xs = (if e \<in> set xs then xs else insort e xs)"

definition getNumberOfEvents :: "('p, 'd) model \<Rightarrow> nat" where
  "getNumberOfEvents m = length (eventCollection m)"


section \<open>The model: construction, insertion, selection, moves\<close>

text \<open>\<open>Model::Model\<close>: a hundred draws are discarded and the event location scale is the
  configured factor times the maximum root-to-tip length, a product of doubles. (The rate scale, the move ratio,
  the prior rate and the counters set there play no part in what follows and are left out.)\<close>

definition Model :: "settings \<Rightarrow> ('p, 'd) model \<Rightarrow> ('p, 'd) model" where
  "Model st m =
     m\<lparr>rngPos := rngPos m + 100,
       scale := rd (updateEventLocationScale st * maxRootToTipLength (theTree m))\<rparr>"

text \<open>\<open>Model::addEventToTree(double x)\<close> and \<open>Model::addEventToTree()\<close>.\<close>

definition addEventToTreeAt :: "real \<Rightarrow> ('p, 'd) model \<Rightarrow> error + ('p, 'd) model" where
  "addEventToTreeAt x m =
     (let (newEvent, m1) = newBranchEventWithRandomParameters x m;
          m2 = addEventToBranchHistory (eventNode (events m1 newEvent)) newEvent m1;
          m3 = m2\<lparr>eventCollection := insertCollection newEvent (eventCollection m2)\<rparr>
      in case forwardSetBranchHistories m3 (Some newEvent) of
           Inl e \<Rightarrow> Inl e
         | Inr m4 \<Rightarrow> Inr ((setMeanBranchParameters m4)\<lparr>lastEventModified := Some newEvent\<rparr>))"

definition addEventToTree :: "('p, 'd) model \<Rightarrow> error + ('p, 'd) model" where
  "addEventToTree m =
     (case root (theTree m) of
        NULL \<Rightarrow> Inl NullPointer
      | Node i l r \<Rightarrow>
          (let aa = mapStart (theTree m) i;
               bb = totalMapLength (theTree m);
               (x, m1) = uniformRvRange aa bb m
           in addEventToTreeAt x m1))"

text \<open>\<open>Model::chooseEventAtRandom\<close>. The number of events is converted to a double and
  multiplied with the draw, in double; the cast \<open>(int)\<close> of a double truncates towards zero.
  The iterator is the rest of the collection; stepping it beyond the end, or reading at the
  end, is the error \<open>OutOfRange\<close>.\<close>

definition truncInt :: "real \<Rightarrow> int" where
  "truncInt x = (if 0 \<le> x then \<lfloor>x\<rfloor> else \<lceil>x\<rceil>)"

fun advance :: "nat \<Rightarrow> 'a list \<Rightarrow> error + 'a list" where
  "advance 0 sit = Inr sit"
| "advance (Suc k) sit = (case sit of [] \<Rightarrow> Inl OutOfRange | y # ys \<Rightarrow> advance k ys)"

definition deref :: "'a list \<Rightarrow> error + 'a" where
  "deref sit = (case sit of [] \<Rightarrow> Inl OutOfRange | y # ys \<Rightarrow> Inr y)"

definition chooseEventAtRandom :: "('p, 'd) model \<Rightarrow> error + (nat \<times> ('p, 'd) model)" where
  "chooseEventAtRandom m =
     (let numEvents = int (length (eventCollection m))
      in if numEvents = 0 then Inl Exit
         else
           (let (xx, m1) = uniformRv m;
                chosen = truncInt (rd (xx * real_of_int numEvents))
            in case advance (nat chosen) (eventCollection m1) of
                 Inl e \<Rightarrow> Inl e
               | Inr sit \<Rightarrow> (case deref sit of Inl e \<Rightarrow> Inl e | Inr ev \<Rightarrow> Inr (ev, m1))))"

text \<open>\<open>Model::eventMove\<close>, \<open>eventLocalMove\<close>, \<open>eventGlobalMove\<close>.\<close>

definition eventMove :: "bool \<Rightarrow> ('p, 'd) model \<Rightarrow> error + ('p, 'd) model" where
  "eventMove local m =
     (if getNumberOfEvents m > 0 then
        (case chooseEventAtRandom m of
           Inl e \<Rightarrow> Inl e
         | Inr (chosenEvent, m1) \<Rightarrow>
             (case getLastEventBefore (histories m1 (eventNode (events m1 chosenEvent))) chosenEvent of
                Inl e \<Rightarrow> Inl e
              | Inr previousEvent \<Rightarrow>
                  (let m2 = m1\<lparr>lastEventModified := Some chosenEvent\<rparr>;
                       m3 = popEventOffBranchHistory (eventNode (events m2 chosenEvent)) chosenEvent m2;
                       m4 = (if local then
                               (let (u, m') = uniformRvRange 0 (scale m3) m3;
                                    step = rd (u - rd (0.5 * scale m3))
                                in moveEventLocal chosenEvent step m')
                             else moveEventGlobal chosenEvent m3);
                       m5 = addEventToBranchHistory (eventNode (events m4 chosenEvent)) chosenEvent m4
                   in case forwardSetBranchHistories m5 previousEvent of
                        Inl e \<Rightarrow> Inl e
                      | Inr m6 \<Rightarrow>
                          (case forwardSetBranchHistories m6 (Some chosenEvent) of
                             Inl e \<Rightarrow> Inl e
                           | Inr m7 \<Rightarrow> Inr (setMeanBranchParameters m7)))))
      else Inr (setMeanBranchParameters m))"

definition eventLocalMove :: "('p, 'd) model \<Rightarrow> error + ('p, 'd) model" where
  "eventLocalMove m = eventMove True m"

definition eventGlobalMove :: "('p, 'd) model \<Rightarrow> error + ('p, 'd) model" where
  "eventGlobalMove m = eventMove False m"

text \<open>\<open>Model::revertMovedEventToPrevious\<close>.\<close>

definition revertMovedEventToPrevious :: "('p, 'd) model \<Rightarrow> error + ('p, 'd) model" where
  "revertMovedEventToPrevious m =
     (case lastEventModified m of
        None \<Rightarrow> Inl NullPointer
      | Some ev \<Rightarrow>
          (case getLastEventBefore (histories m (eventNode (events m ev))) ev of
             Inl e \<Rightarrow> Inl e
           | Inr newLastEvent \<Rightarrow>
               (let m1 = popEventOffBranchHistory (eventNode (events m ev)) ev m;
                    m2 = revertOldMapPosition ev m1;
                    m3 = addEventToBranchHistory (eventNode (events m2 ev)) ev m2
                in case forwardSetBranchHistories m3 newLastEvent of
                     Inl e \<Rightarrow> Inl e
                   | Inr m4 \<Rightarrow>
                       (case forwardSetBranchHistories m4 (Some ev) of
                          Inl e \<Rightarrow> Inl e
                        | Inr m5 \<Rightarrow>
                            Inr (setMeanBranchParameters (m5\<lparr>lastEventModified := None\<rparr>))))))"

text \<open>\<open>Model::countEventsInBranchHistory\<close>.\<close>

fun countEventsInBranchHistory :: "('p, 'd) model \<Rightarrow> node \<Rightarrow> error + nat" where
  "countEventsInBranchHistory m NULL = Inl NullPointer"
| "countEventsInBranchHistory m (Node i l r) =
     (case (if l \<noteq> NULL then countEventsInBranchHistory m l else Inr 0) of
        Inl e \<Rightarrow> Inl e
      | Inr cl \<Rightarrow>
          (case (if r \<noteq> NULL then countEventsInBranchHistory m r else Inr 0) of
             Inl e \<Rightarrow> Inl e
           | Inr cr \<Rightarrow> Inr (getNumberOfBranchEvents (histories m i) + cl + cr)))"

section \<open>The initializer\<close>

text \<open>One pass of the loop of \<open>Model::initializeModelFromEventDataFile\<close>, from the values
  that the extractions have left in \<open>species1\<close>, \<open>species2\<close>, \<open>eTime\<close> and in the
  model-specific parameters. The tree's lookups end the process themselves on a name they
  cannot resolve (\<open>None\<close>, the error \<open>Unresolved\<close>). The loop repeats the pass as long as
  the test of the stream succeeds; how often that is belongs to the stream and is left out.\<close>

datatype initError = InitExit | Unresolved | Propagation error

definition resolveNode :: "tree \<Rightarrow> string \<Rightarrow> string \<Rightarrow> initError + nat" where
  "resolveNode t species1 species2 =
     (if species1 \<noteq> ''NA'' \<and> species2 \<noteq> ''NA'' then
        (case nodeMRCA t species1 species2 of None \<Rightarrow> Inl Unresolved | Some x \<Rightarrow> Inr x)
      else if species1 \<noteq> ''NA'' \<and> species2 = ''NA'' then
        (case nodeByName t species1 of None \<Rightarrow> Inl Unresolved | Some x \<Rightarrow> Inr x)
      else Inl InitExit)"

definition initializeRecord ::
  "string \<Rightarrow> string \<Rightarrow> real \<Rightarrow> 'p \<Rightarrow> ('p, 'd) model \<Rightarrow> initError + ('p, 'd) model" where
  "initializeRecord species1 species2 eTime ps m0 =
     (let m = m0\<lparr>readParameters := ps\<rparr>
      in case resolveNode (theTree m) species1 species2 of
           Inl e \<Rightarrow> Inl e
         | Inr x \<Rightarrow>
             (if isNode (root (theTree m)) x then Inr (setRootEventWithReadParameters m)
              else
                (let deltaT = rd (time (theTree m) x - eTime);
                     newMapTime = rd (mapStart (theTree m) x + deltaT);
                     (newEvent, m1) = newBranchEventWithReadParameters x newMapTime m;
                     m2 = addEventToBranchHistory (eventNode (events m1 newEvent)) newEvent m1;
                     m3 = m2\<lparr>eventCollection := insertCollection newEvent (eventCollection m2)\<rparr>
                 in case forwardSetBranchHistories m3 (Some newEvent) of
                      Inl e \<Rightarrow> Inl (Propagation e)
                    | Inr m4 \<Rightarrow> Inr (setMeanBranchParameters m4))))"


section \<open>The propagation as the specification words it\<close>

text \<open>The recursive descent on the branch histories alone: at \<open>p\<close>, whose parent is \<open>a\<close>, set
  \<open>ancestralNodeEvent\<close> to the parent's \<open>nodeEvent\<close>; if \<open>p\<close>'s own history is empty, set
  \<open>nodeEvent\<close> to that value too and descend into both children; otherwise stop. Where a
  pointer is null there is no node and nothing to do.\<close>

fun propagate :: "(nat \<Rightarrow> branchHistory) \<Rightarrow> nat \<Rightarrow> node \<Rightarrow> (nat \<Rightarrow> branchHistory)" where
  "propagate h a NULL = h"
| "propagate h a (Node i l r) =
     (let v = nodeEvent (h a);
          h1 = h(i := (h i)\<lparr>ancestralNodeEvent := v\<rparr>)
      in if eventsOnBranch (h1 i) = [] then
           propagate (propagate (h1(i := (h1 i)\<lparr>nodeEvent := v\<rparr>)) i l) i r
         else h1)"

text \<open>Forward-setting from an event, as the specification words it: from the Root Event,
  propagate into both child subtrees of the root; from another event that is the
  most-tipward of its branch, set the node's \<open>nodeEvent\<close> and, if the node has descendants,
  propagate into both children; otherwise do nothing.\<close>

definition forwardSetSpec :: "('p, 'd) model \<Rightarrow> nat \<Rightarrow> (nat \<Rightarrow> branchHistory)" where
  "forwardSetSpec m x =
     (let h = histories m
      in if x = rootEvent m then
           (case root (theTree m) of
              NULL \<Rightarrow> h
            | Node i l r \<Rightarrow> propagate (propagate h i l) i r)
         else
           (case findNode (root (theTree m)) (eventNode (events m x)) of
              NULL \<Rightarrow> h
            | Node i l r \<Rightarrow>
                (if getLastEvent (h i) = Some x then
                   (let h1 = h(i := (h i)\<lparr>nodeEvent := Some x\<rparr>)
                    in if l \<noteq> NULL \<or> r \<noteq> NULL then propagate (propagate h1 i l) i r else h1)
                 else h)))"

section \<open>Well-formed trees\<close>

fun subtrees :: "node \<Rightarrow> node list" where
  "subtrees NULL = []"
| "subtrees (Node i l r) = Node i l r # subtrees l @ subtrees r"

text \<open>\<open>getAnc\<close> of every node of \<open>p\<close> is its parent in \<open>p\<close>, that of \<open>p\<close>'s top node is \<open>a\<close>.\<close>

fun parentsAgree :: "node \<Rightarrow> nat \<Rightarrow> node \<Rightarrow> bool" where
  "parentsAgree T a NULL = True"
| "parentsAgree T a (Node i l r) = (getAnc T i = Some a \<and> parentsAgree T i l \<and> parentsAgree T i r)"

text \<open>A node is a tip (no descendants) or has both descendants.\<close>

fun binary :: "node \<Rightarrow> bool" where
  "binary NULL = True"
| "binary (Node i l r) = ((l = NULL) = (r = NULL) \<and> binary l \<and> binary r)"

section \<open>A tree of four tips\<close>

text \<open>The root 0 has the internal nodes 1 (tips 2 and 3) and 4 (tips 5 and 6); the branch of
  node \<open>i\<close> covers the map positions from \<open>i - 1\<close> up to \<open>i\<close>.\<close>

definition exRoot :: node where
  "exRoot = Node 0 (Node 1 (Node 2 NULL NULL) (Node 3 NULL NULL))
                   (Node 4 (Node 5 NULL NULL) (Node 6 NULL NULL))"

definition exTree :: tree where
  "exTree = \<lparr>root = exRoot, mapStart = (\<lambda>i. real i - 1), time = (\<lambda>i. 1),
     totalMapLength = 6, maxRootToTipLength = 2,
     mapEventToTree = (\<lambda>x. if x < 1 then 1 else if x < 2 then 2 else if x < 3 then 3
                             else if x < 4 then 4 else if x < 5 then 5 else 6),
     nodeByName = (\<lambda>s. if s = ''A'' then Some 1 else if s = ''R'' then Some 0 else None),
     nodeMRCA = (\<lambda>a b. if a = b then None else Some 4)\<rparr>"

definition exEvent :: "nat \<Rightarrow> real \<Rightarrow> unit branchEvent" where
  "exEvent n t = \<lparr>eventNode = n, mapTime = t, oldEventNode = n, oldMapTime = t, eventParams = ()\<rparr>"

definition exHistory :: "nat list \<Rightarrow> nat \<Rightarrow> nat \<Rightarrow> branchHistory" where
  "exHistory es ne ae = \<lparr>eventsOnBranch = es, nodeEvent = Some ne, ancestralNodeEvent = Some ae\<rparr>"

text \<open>No event but the Root Event 0; the derived means (here the number of events of each
  branch) have not been computed yet.\<close>

definition exModel :: "(unit, nat list) model" where
  "exModel = \<lparr>theTree = exTree, rngDraws = (\<lambda>n. if even n then 1/4 else 3/4), rngPos = 0,
     histories = (\<lambda>i. exHistory [] 0 0),
     events = (\<lambda>i. exEvent 0 0),
     nextEvent = 1, eventCollection = [], rootEvent = 0, lastEventModified = None, scale = 1,
     readParameters = (), meanBranch = [],
     computeMeanBranch = (\<lambda>h ev. map (\<lambda>i. length (eventsOnBranch (h i))) [0, 1, 2, 3, 4, 5, 6]),
     randomParameters = (\<lambda>d p. ((), p))\<rparr>"

text \<open>One event, 1, halfway up the branch of node 1.\<close>

definition exOne :: "(unit, nat list) model" where
  "exOne = exModel\<lparr>
     histories := (\<lambda>i. if i = 1 then exHistory [1] 1 0 else if i = 2 \<or> i = 3 then exHistory [] 1 1
                        else exHistory [] 0 0),
     events := (\<lambda>i. if i = 1 then exEvent 1 (1/2) else exEvent 0 0),
     nextEvent := 2, eventCollection := [1], meanBranch := [0, 1, 0, 0, 0, 0, 0]\<rparr>"

text \<open>Event 1 has been put on the branch of node 1 and not yet propagated.\<close>

definition exAdded :: "(unit, nat list) model" where
  "exAdded = exModel\<lparr>
     histories := (\<lambda>i. if i = 1 then exHistory [1] 0 0 else exHistory [] 0 0),
     events := (\<lambda>i. if i = 1 then exEvent 1 (1/2) else exEvent 0 0),
     nextEvent := 2, eventCollection := [1]\<rparr>"

text \<open>Event 2 has been put on the branch of node 1, tipward of event 1, and not yet
  propagated; tip 2 has an event of its own, 3.\<close>

definition exShield :: "(unit, nat list) model" where
  "exShield = exModel\<lparr>
     histories := (\<lambda>i. if i = 1 then exHistory [1, 2] 1 0 else if i = 2 then exHistory [3] 3 1
                        else if i = 3 then exHistory [] 1 1 else exHistory [] 0 0),
     events := (\<lambda>i. if i = 1 then exEvent 1 (1/4) else if i = 2 then exEvent 1 (1/2)
                     else if i = 3 then exEvent 2 (3/2) else exEvent 0 0),
     nextEvent := 4, eventCollection := [1, 2, 3]\<rparr>"

section \<open>Auxiliary notions for the statements\<close>

text \<open>The second model differs from the first in the cached references of the branch
  histories at most.\<close>

definition cachesOnly :: "('p, 'd) model \<Rightarrow> ('p, 'd) model \<Rightarrow> bool" where
  "cachesOnly m m' =
     (\<exists>h. m' = m\<lparr>histories := h\<rparr> \<and> (\<forall>j. eventsOnBranch (h j) = eventsOnBranch (histories m j)))"

text \<open>The state of a move after the event has been taken off, moved and put back.\<close>

definition movedLocal :: "nat \<Rightarrow> ('p, 'd) model \<Rightarrow> ('p, 'd) model" where
  "movedLocal e m1 =
     (let m2 = m1\<lparr>lastEventModified := Some e\<rparr>;
          m3 = popEventOffBranchHistory (eventNode (events m2 e)) e m2;
          (u, m') = uniformRvRange 0 (scale m3) m3;
          m4 = moveEventLocal e (rd (u - rd (0.5 * scale m3))) m'
      in addEventToBranchHistory (eventNode (events m4 e)) e m4)"

text \<open>The state of the initializer after a new event with the read parameters has been
  constructed at node \<open>x\<close> and map time \<open>t\<close> and put into the branch history and the Registry.\<close>

definition insertedRecord :: "nat \<Rightarrow> real \<Rightarrow> 'p \<Rightarrow> ('p, 'd) model \<Rightarrow> ('p, 'd) model" where
  "insertedRecord x t ps m =
     (let e = nextEvent m;
          ev = (events m)(e := \<lparr>eventNode = x, mapTime = t, oldEventNode = x, oldMapTime = t,
                                eventParams = ps\<rparr>)
      in m\<lparr>readParameters := ps, events := ev, nextEvent := Suc e,
           histories := (histories m)(x := (histories m x)
             \<lparr>eventsOnBranch := insertEvent (\<lambda>k. mapTime (ev k)) e (eventsOnBranch (histories m x))\<rparr>),
           eventCollection := insertCollection e (eventCollection m)\<rparr>)"

text \<open>Ten events in the Registry, and every draw the double nearest to 0.3.\<close>

definition exTen :: "(unit, nat list) model" where
  "exTen = exModel\<lparr>rngDraws := (\<lambda>n. 5404319552844595 / 18014398509481984),
     eventCollection := [1, 2, 3, 4, 5, 6, 7, 8, 9, 10]\<rparr>"

text \<open>The one event of \<open>exOne\<close>, with a second draw of \<open>2 ^ -60\<close>; a tree whose maximum
  root-to-tip length is 3, and a configured factor that is the double nearest to 0.1.\<close>

definition exSmallDraw :: "(unit, nat list) model" where
  "exSmallDraw = exOne\<lparr>rngDraws := (\<lambda>n. if even n then 1 / 4 else 1 / 2 ^ 60)\<rparr>"

definition exLong :: "(unit, nat list) model" where
  "exLong = exModel\<lparr>theTree := exTree\<lparr>maxRootToTipLength := 3\<rparr>\<rparr>"

definition exJitter :: settings where
  "exJitter = \<lparr>updateEventLocationScale = 3602879701896397 / 36028797018963968,
     updateEventRateScale = 1, localGlobalMoveRatio = 1, poissonRatePrior = 1\<rparr>"

definition exSettings :: settings where
  "exSettings = \<lparr>updateEventLocationScale = 1 / 2, updateEventRateScale = 1,
     localGlobalMoveRatio = 1, poissonRatePrior = 1\<rparr>"

section \<open>The invariant of the cached references\<close>

text \<open>The cached references of the subtree \<open>p\<close> agree with the branch lists, given that \<open>v\<close> is
  the \<open>nodeEvent\<close> of the parent of \<open>p\<close>: every node's \<open>ancestralNodeEvent\<close> is its parent's
  \<open>nodeEvent\<close>, and its \<open>nodeEvent\<close> is the last event of its own list, or the inherited one
  if the list is empty. The nodes in \<open>Y\<close> are exempt from the second condition: they are the
  nodes whose list has just been changed and whose \<open>nodeEvent\<close> has not been set again yet.\<close>

fun cachesAgree :: "nat set \<Rightarrow> (nat \<Rightarrow> branchHistory) \<Rightarrow> nat option \<Rightarrow> node \<Rightarrow> bool" where
  "cachesAgree Y h v NULL = True"
| "cachesAgree Y h v (Node i l r) =
     (ancestralNodeEvent (h i) = v \<and>
      (i \<notin> Y \<longrightarrow> nodeEvent (h i) =
         (if eventsOnBranch (h i) = [] then v else Some (last (eventsOnBranch (h i))))) \<and>
      cachesAgree Y h (nodeEvent (h i)) l \<and> cachesAgree Y h (nodeEvent (h i)) r)"

text \<open>The nodes that the recursive descent from \<open>p\<close> visits (it stops below a node with a
  non-empty list), and those among them whose \<open>nodeEvent\<close> it writes (the empty ones).\<close>

fun zone :: "(nat \<Rightarrow> branchHistory) \<Rightarrow> node \<Rightarrow> nat set" where
  "zone h NULL = {}"
| "zone h (Node i l r) =
     (if eventsOnBranch (h i) = [] then insert i (zone h l \<union> zone h r) else {})"

fun visited :: "(nat \<Rightarrow> branchHistory) \<Rightarrow> node \<Rightarrow> nat set" where
  "visited h NULL = {}"
| "visited h (Node i l r) =
     insert i (if eventsOnBranch (h i) = [] then visited h l \<union> visited h r else {})"

text \<open>The same for a whole tree with root \<open>\<rho>\<close> and the two subtrees of the root; and what
  one forward-set that writes the nodes \<open>Z\<close> does to it: the exempt nodes in \<open>Z\<close> are settled,
  the \<open>nodeEvent\<close> of every other node, the lists and the root are left alone.\<close>

definition cachesAgreeRoot :: "nat set \<Rightarrow> (nat \<Rightarrow> branchHistory) \<Rightarrow> nat \<Rightarrow> node \<Rightarrow> node \<Rightarrow> bool" where
  "cachesAgreeRoot Y h \<rho> tL tR =
     (cachesAgree Y h (nodeEvent (h \<rho>)) tL \<and> cachesAgree Y h (nodeEvent (h \<rho>)) tR)"

definition repairs ::
  "nat \<Rightarrow> node \<Rightarrow> node \<Rightarrow> (nat \<Rightarrow> branchHistory) \<Rightarrow> (nat \<Rightarrow> branchHistory) \<Rightarrow> nat set \<Rightarrow> bool" where
  "repairs \<rho> tL tR h h' Z =
     ((\<forall>Y. cachesAgreeRoot Y h \<rho> tL tR \<longrightarrow> cachesAgreeRoot (Y - Z) h' \<rho> tL tR) \<and>
      (\<forall>j. j \<notin> Z \<longrightarrow> nodeEvent (h' j) = nodeEvent (h j)) \<and>
      (\<forall>j. eventsOnBranch (h' j) = eventsOnBranch (h j)) \<and>
      h' \<rho> = h \<rho>)"

text \<open>A well-formed tree: a root with descendants, distinct node identities, every node a tip or
  with both descendants. The nodes with a branch are all but the root.\<close>

fun nodeId :: "node \<Rightarrow> nat" where
  "nodeId NULL = 0"
| "nodeId (Node i l r) = i"

definition wfTree :: "node \<Rightarrow> bool" where
  "wfTree t = (t \<noteq> NULL \<and> getLfDesc t \<noteq> NULL \<and> distinct (nodeIds t) \<and> binary t)"

definition nonRootIds :: "node \<Rightarrow> nat list" where
  "nonRootIds t = nodeIds (getLfDesc t) @ nodeIds (getRtDesc t)"

text \<open>The nodes whose \<open>nodeEvent\<close> a forward-set from event \<open>x\<close> writes.\<close>

definition forwardSetZone :: "('p, 'd) model \<Rightarrow> nat \<Rightarrow> nat set" where
  "forwardSetZone m x =
     (let h = histories m
      in if x = rootEvent m then
           zone h (getLfDesc (root (theTree m))) \<union> zone h (getRtDesc (root (theTree m)))
         else
           (case findNode (root (theTree m)) (eventNode (events m x)) of
              NULL \<Rightarrow> {}
            | Node i l r \<Rightarrow>
                (if getLastEvent (h i) = Some x then insert i (zone h l \<union> zone h r) else {})))"

text \<open>A consistent state. The tree is well-formed and the collaborators resolve map positions to
  nodes with a branch and names to nodes of the tree. Every event of a branch list belongs to
  that node, is not the Root Event and has a saved node with a branch; the lists have no
  duplicates and the root has none; the Registry holds exactly the events of the lists. The
  root's \<open>nodeEvent\<close> is the Root Event and the cached references agree with the lists
  everywhere. The last modified event, if any, is in the Registry.\<close>

definition treeOK :: "('p, 'd) model \<Rightarrow> bool" where
  "treeOK m =
     (wfTree (root (theTree m)) \<and>
      (\<forall>x. mapEventToTree (theTree m) x \<in> set (nonRootIds (root (theTree m)))) \<and>
      (\<forall>s x. nodeByName (theTree m) s = Some x \<longrightarrow> x \<in> set (nodeIds (root (theTree m)))) \<and>
      (\<forall>s1 s2 x. nodeMRCA (theTree m) s1 s2 = Some x \<longrightarrow> x \<in> set (nodeIds (root (theTree m)))))"

definition eventsOK :: "('p, 'd) model \<Rightarrow> bool" where
  "eventsOK m =
     (eventNode (events m (rootEvent m)) = nodeId (root (theTree m)) \<and>
      rootEvent m < nextEvent m \<and>
      eventsOnBranch (histories m (nodeId (root (theTree m)))) = [] \<and>
      (\<forall>i \<in> set (nonRootIds (root (theTree m))).
         distinct (eventsOnBranch (histories m i)) \<and>
         (\<forall>e \<in> set (eventsOnBranch (histories m i)).
            eventNode (events m e) = i \<and>
            oldEventNode (events m e) \<in> set (nonRootIds (root (theTree m))) \<and>
            e < nextEvent m \<and> e \<noteq> rootEvent m)) \<and>
      set (eventCollection m) =
        (\<Union>i \<in> set (nonRootIds (root (theTree m))). set (eventsOnBranch (histories m i))))"

definition cachesOK :: "('p, 'd) model \<Rightarrow> bool" where
  "cachesOK m =
     (nodeEvent (histories m (nodeId (root (theTree m)))) = Some (rootEvent m) \<and>
      cachesAgree {} (histories m) (Some (rootEvent m)) (getLfDesc (root (theTree m))) \<and>
      cachesAgree {} (histories m) (Some (rootEvent m)) (getRtDesc (root (theTree m))))"

definition lastOK :: "('p, 'd) model \<Rightarrow> bool" where
  "lastOK m = (\<forall>e. lastEventModified m = Some e \<longrightarrow> e \<in> set (eventCollection m))"

definition consistent :: "('p, 'd) model \<Rightarrow> bool" where
  "consistent m = (treeOK m \<and> eventsOK m \<and> cachesOK m \<and> lastOK m)"

text \<open>Two states with the same tree, histories, events and Registry; and the state \<open>m4\<close> reached
  from \<open>m\<close> by taking the event \<open>e\<close> off its branch and giving it another position.\<close>

definition sameCore :: "('p, 'd) model \<Rightarrow> ('p, 'd) model \<Rightarrow> bool" where
  "sameCore m m' =
     (theTree m' = theTree m \<and> histories m' = histories m \<and> events m' = events m \<and>
      nextEvent m' = nextEvent m \<and> eventCollection m' = eventCollection m \<and>
      rootEvent m' = rootEvent m)"

definition relocates :: "('p, 'd) model \<Rightarrow> nat \<Rightarrow> ('p, 'd) model \<Rightarrow> bool" where
  "relocates m e m4 =
     (theTree m4 = theTree m \<and> rootEvent m4 = rootEvent m \<and> nextEvent m4 = nextEvent m \<and>
      eventCollection m4 = eventCollection m \<and>
      histories m4 = histories (popEventOffBranchHistory (eventNode (events m e)) e m) \<and>
      (\<forall>k. k \<noteq> e \<longrightarrow> events m4 k = events m k) \<and>
      eventNode (events m4 e) \<in> set (nonRootIds (root (theTree m))) \<and>
      oldEventNode (events m4 e) \<in> set (nonRootIds (root (theTree m))))"

section \<open>Sequences of operations\<close>

text \<open>The operations that change the event configuration, and the state after a sequence of
  them; \<open>None\<close> if one of them ends in an error.\<close>

datatype 'p operation =
    AddEventToTree
  | AddEventToTreeAt real
  | EventMove bool
  | RevertMovedEventToPrevious
  | InitializeRecord string string real 'p

fun applyOperation :: "'p operation \<Rightarrow> ('p, 'd) model \<Rightarrow> ('p, 'd) model option" where
  "applyOperation AddEventToTree m = (case addEventToTree m of Inl e \<Rightarrow> None | Inr m' \<Rightarrow> Some m')"
| "applyOperation (AddEventToTreeAt x) m =
     (case addEventToTreeAt x m of Inl e \<Rightarrow> None | Inr m' \<Rightarrow> Some m')"
| "applyOperation (EventMove local) m = (case eventMove local m of Inl e \<Rightarrow> None | Inr m' \<Rightarrow> Some m')"
| "applyOperation RevertMovedEventToPrevious m =
     (case revertMovedEventToPrevious m of Inl e \<Rightarrow> None | Inr m' \<Rightarrow> Some m')"
| "applyOperation (InitializeRecord species1 species2 eTime ps) m =
     (case initializeRecord species1 species2 eTime ps m of Inl e \<Rightarrow> None | Inr m' \<Rightarrow> Some m')"

fun runOperations :: "'p operation list \<Rightarrow> ('p, 'd) model \<Rightarrow> ('p, 'd) model option" where
  "runOperations [] m = Some m"
| "runOperations (x # xs) m =
     (case applyOperation x m of None \<Rightarrow> None | Some m1 \<Rightarrow> runOperations xs m1)"

text \<open>What is claimed of every node: its \<open>nodeEvent\<close> is the most-tipward (last) event of its
  own list if there is one, and its ancestor's \<open>nodeEvent\<close> otherwise (the root has no
  ancestor).\<close>

definition nodeEventInvariant :: "('p, 'd) model \<Rightarrow> bool" where
  "nodeEventInvariant m =
     (\<forall>i \<in> set (nodeIds (root (theTree m))).
        (if eventsOnBranch (histories m i) \<noteq> []
         then nodeEvent (histories m i) = Some (last (eventsOnBranch (histories m i)))
         else (case getAnc (root (theTree m)) i of
                 None \<Rightarrow> True
               | Some a \<Rightarrow> nodeEvent (histories m i) = nodeEvent (histories m a))))"

text \<open>Two insertions, a local and a global move, a revert and a record of the initializer.\<close>

definition exOps :: "unit operation list" where
  "exOps = [AddEventToTreeAt (1 / 2), AddEventToTree, EventMove True, EventMove False,
            RevertMovedEventToPrevious, InitializeRecord ''A'' ''NA'' (1 / 2) ()]"

text \<open>The state \<open>exShield\<close> with a stale \<open>ancestralNodeEvent\<close> on node 1.\<close>

definition exStale :: "(unit, nat list) model" where
  "exStale = exShield\<lparr>histories := (histories exShield)(1 := exHistory [1, 2] 1 3)\<rparr>"

section \<open>Properties: double arithmetic\<close>

lemma pow2_powr: "pow2 i = 2 powr (of_int i)"
proof (cases "0 \<le> i")
  case True
  then have "2 powr (of_int i) = (2::real) powr (real (nat i))" by simp
  also have "\<dots> = 2 ^ nat i" by (rule powr_realpow) simp
  finally show ?thesis using True by (simp add: pow2_def)
next
  case False
  then have "(2::real) powr (of_int i) = 2 powr (- real (nat (- i)))" by simp
  also have "\<dots> = 1 / 2 powr (real (nat (- i)))" by (simp add: powr_minus divide_inverse)
  also have "\<dots> = 1 / 2 ^ nat (- i)" by (simp add: powr_realpow)
  finally show ?thesis using False by (simp add: pow2_def)
qed

lemma pow2_pos: "0 < pow2 i" by (simp add: pow2_powr)

lemma pow2_add: "pow2 (i + j) = pow2 i * pow2 j" by (simp add: pow2_powr powr_add)

lemma pow2_mono: "i \<le> j \<Longrightarrow> pow2 i \<le> pow2 j" by (simp add: pow2_powr)

lemma pow2_less: "pow2 i < pow2 j \<Longrightarrow> i < j" by (simp add: pow2_powr)

lemma pow2_nat: "0 \<le> i \<Longrightarrow> pow2 i = of_int (2 ^ nat i)" by (simp add: pow2_def)

lemma pow2_Suc: "pow2 (i + 1) = 2 * pow2 i"
proof -
  have "pow2 1 = 2" by (simp add: pow2_def)
  then show ?thesis using pow2_add [of i 1] by simp
qed

lemma ilog2_bounds:
  assumes "0 < x"
  shows "pow2 (ilog2 x) \<le> x" "x < pow2 (ilog2 x + 1)"
proof -
  have e: "ilog2 x = \<lfloor>log 2 x\<rfloor>" using assms by (simp add: ilog2_def)
  have "of_int \<lfloor>log 2 x\<rfloor> \<le> log 2 x" by simp
  then have "2 powr (of_int \<lfloor>log 2 x\<rfloor>) \<le> 2 powr (log 2 x)" by (simp only: powr_le_cancel_iff) 
  then show "pow2 (ilog2 x) \<le> x" using assms by (simp add: pow2_powr e)
  have "log 2 x < of_int (\<lfloor>log 2 x\<rfloor> + 1)" by linarith
  then have "2 powr (log 2 x) < 2 powr (of_int (\<lfloor>log 2 x\<rfloor> + 1))" by (simp only: powr_less_cancel_iff)
  then show "x < pow2 (ilog2 x + 1)" using assms by (simp add: pow2_powr e)
qed

lemma ilog2_eq:
  assumes "pow2 e \<le> x" "x < pow2 (e + 1)"
  shows "ilog2 x = e"
proof -
  have x: "0 < x" using assms(1) pow2_pos [of e] by linarith
  have "pow2 (ilog2 x) < pow2 (e + 1)" using ilog2_bounds(1) [OF x] assms(2) by linarith
  then have 1: "ilog2 x < e + 1" by (rule pow2_less)
  have "pow2 e < pow2 (ilog2 x + 1)" using ilog2_bounds(2) [OF x] assms(1) by linarith
  then have 2: "e < ilog2 x + 1" by (rule pow2_less)
  show ?thesis using 1 2 by linarith
qed

lemma ilog2_code [code]:
  "ilog2 x = (if x \<le> 0 then 0 else if 2 \<le> x then ilog2 (x / 2) + 1
              else if x < 1 then ilog2 (2 * x) - 1 else 0)"
proof (cases "x \<le> 0")
  case True
  then show ?thesis by (simp add: ilog2_def)
next
  case False
  then have x: "0 < x" by simp
  show ?thesis
  proof (cases "2 \<le> x")
    case True
    have h: "0 < x / 2" using x by simp
    have "pow2 (ilog2 (x / 2) + 1) = 2 * pow2 (ilog2 (x / 2))" by (rule pow2_Suc)
    then have a: "pow2 (ilog2 (x / 2) + 1) \<le> x" using ilog2_bounds(1) [OF h] by simp
    have "pow2 (ilog2 (x / 2) + 1 + 1) = 2 * pow2 (ilog2 (x / 2) + 1)" by (rule pow2_Suc)
    then have b: "x < pow2 (ilog2 (x / 2) + 1 + 1)" using ilog2_bounds(2) [OF h] by simp
    show ?thesis using ilog2_eq [OF a b] True x by simp
  next
    case False
    show ?thesis
    proof (cases "x < 1")
      case True
      have h: "0 < 2 * x" using x by simp
      have "2 * pow2 (ilog2 (2 * x) - 1) = pow2 (ilog2 (2 * x) - 1 + 1)"
        by (rule pow2_Suc [symmetric])
      then have a: "pow2 (ilog2 (2 * x) - 1) \<le> x" using ilog2_bounds(1) [OF h] by simp
      have "2 * pow2 (ilog2 (2 * x) - 1 + 1) = pow2 (ilog2 (2 * x) + 1)"
        using pow2_Suc [of "ilog2 (2 * x)"] by simp
      then have b: "x < pow2 (ilog2 (2 * x) - 1 + 1)" using ilog2_bounds(2) [OF h] by simp
      show ?thesis using ilog2_eq [OF a b] True x \<open>\<not> 2 \<le> x\<close> by simp
    next
      case False
      have "pow2 0 \<le> x" "x < pow2 (0 + 1)" using False \<open>\<not> 2 \<le> x\<close> by (simp_all add: pow2_def)
      then have "ilog2 x = 0" by (rule ilog2_eq)
      then show ?thesis using False \<open>\<not> 2 \<le> x\<close> x by simp
    qed
  qed
qed

lemma roundEven_le: "z < of_int N - 1 / 2 \<Longrightarrow> roundEven z \<le> N - 1"
proof -
  assume a: "z < of_int N - 1 / 2"
  have f: "\<lfloor>z\<rfloor> \<le> N - 1" using a by (simp add: floor_le_iff) linarith
  have "roundEven z = \<lfloor>z\<rfloor>" if "\<lfloor>z\<rfloor> = N - 1"
  proof -
    have "z - of_int \<lfloor>z\<rfloor> < 1 / 2" using a that by simp
    then show ?thesis by (simp add: roundEven_def Let_def)
  qed
  moreover have "roundEven z \<le> \<lfloor>z\<rfloor> + 1" by (simp add: roundEven_def Let_def)
  ultimately show ?thesis using f by (cases "\<lfloor>z\<rfloor> = N - 1") auto
qed

lemma roundEven_nonneg: "0 \<le> z \<Longrightarrow> 0 \<le> roundEven z"
proof -
  assume "0 \<le> z"
  then have "0 \<le> \<lfloor>z\<rfloor>" by simp
  moreover have "\<lfloor>z\<rfloor> \<le> roundEven z" by (simp add: roundEven_def Let_def)
  ultimately show ?thesis by linarith
qed

lemma roundEven_int: "roundEven (of_int k) = k"
  by (simp add: roundEven_def Let_def)

lemma rd_zero: "rd 0 = 0"
  by (simp add: rd_def Let_def roundEven_def)

lemma rd_nonneg: "0 \<le> x \<Longrightarrow> 0 \<le> rd x"
proof -
  assume x: "0 \<le> x"
  let ?q = "pow2 (max (- 1022) (ilog2 \<bar>x\<bar>) - 52)"
  have "0 \<le> x / ?q" using x pow2_pos [of "max (- 1022) (ilog2 \<bar>x\<bar>) - 52"] by simp
  then have "0 \<le> roundEven (x / ?q)" by (rule roundEven_nonneg)
  then show ?thesis using pow2_pos [of "max (- 1022) (ilog2 \<bar>x\<bar>) - 52"]
    by (simp add: rd_def Let_def)
qed

lemma double_below_one:
  assumes d: "isDouble u" and u: "0 \<le> u" "u < 1"
  shows "u \<le> 1 - pow2 (- 53)"
proof (cases "u < 1 / 2")
  case True
  have "pow2 (- 53) \<le> pow2 (- 1)" by (rule pow2_mono) simp
  also have "\<dots> = 1 / 2" by (simp add: pow2_def)
  finally show ?thesis using True by linarith
next
  case False
  have "pow2 (- 1) \<le> u" "u < pow2 (- 1 + 1)" using False u by (simp_all add: pow2_def)
  then have e: "ilog2 u = - 1" by (rule ilog2_eq)
  let ?q = "pow2 (- 53)"
  let ?K = "roundEven (u / ?q)"
  have q: "0 < ?q" by (rule pow2_pos)
  have ru: "rd u = of_int ?K * ?q" using u e by (simp add: rd_def Let_def)
  then have uK: "u = of_int ?K * ?q" using d by (simp add: isDouble_def)
  have one: "pow2 53 * ?q = 1" using pow2_add [of 53 "- 53"] by (simp add: pow2_def)
  have "of_int ?K * ?q < pow2 53 * ?q" using uK u(2) one by simp
  then have "of_int ?K < pow2 53" using q by simp
  then have "of_int ?K < (of_int (2 ^ 53) :: real)" by (simp add: pow2_def)
  then have "?K < 2 ^ 53" by (simp only: of_int_less_iff)
  then have "?K \<le> 2 ^ 53 - 1" by simp
  then have "(of_int ?K :: real) \<le> of_int (2 ^ 53 - 1)" by (simp only: of_int_le_iff)
  then have "of_int ?K * ?q \<le> of_int (2 ^ 53 - 1) * ?q" using q by simp
  also have "\<dots> = pow2 53 * ?q - ?q" by (simp add: pow2_def algebra_simps)
  finally show ?thesis using uK one by simp
qed

lemma rd_product_less:
  assumes d: "isDouble u" and u: "0 \<le> u" "u < 1" and n: "0 < n" "n < 2 ^ 53"
  shows "0 \<le> rd (u * real n)" "rd (u * real n) < real n"
proof -
  let ?y = "u * real n"
  have y0: "0 \<le> ?y" using u(1) by simp
  show "0 \<le> rd ?y" using y0 by (rule rd_nonneg)
  show "rd ?y < real n"
  proof (cases "?y = 0")
    case True
    then show ?thesis using n(1) rd_zero by simp
  next
    case False
    then have yp: "0 < ?y" using y0 by linarith
    have yn: "?y < real n" using u(2) n(1) by simp
    define e where "e = max (- 1022) (ilog2 \<bar>?y\<bar>)"
    define q where "q = pow2 (e - 52)"
    have q: "0 < q" unfolding q_def by (rule pow2_pos)
    have ry: "rd ?y = of_int (roundEven (?y / q)) * q"
      unfolding q_def e_def by (simp add: rd_def Let_def)
    have en: "pow2 e < real n"
    proof (cases "ilog2 \<bar>?y\<bar> \<le> - 1022")
      case True
      then have "e = - 1022" by (simp add: e_def)
      then have "pow2 e \<le> pow2 (- 1)" using pow2_mono [of "- 1022" "- 1"] by simp
      also have "\<dots> < 1" by (simp add: pow2_def)
      finally show ?thesis using n(1) by simp
    next
      case False
      then have "e = ilog2 ?y" using y0 by (simp add: e_def)
      then have "pow2 e \<le> ?y" using ilog2_bounds(1) [OF yp] by simp
      then show ?thesis using yn by linarith
    qed
    have "real n < pow2 53" using n(2) by (simp add: pow2_def) 
    then have "pow2 e < pow2 53" using en by linarith
    then have e53: "e < 53" by (rule pow2_less)
    define N :: int where "N = int n * 2 ^ nat (52 - e)"
    have qq: "pow2 (52 - e) * q = 1"
      unfolding q_def using pow2_add [of "52 - e" "e - 52"] by (simp add: pow2_def)
    have p52: "pow2 (52 - e) = of_int (2 ^ nat (52 - e))" using e53 by (intro pow2_nat) simp
    have nq: "real n / q = of_int N"
    proof -
      have "real n / q = real n * pow2 (52 - e)" using qq q by (simp add: field_simps)
      then show ?thesis by (simp add: N_def p52)
    qed
    have h: "pow2 (- 53) / q = pow2 (- e - 1)"
    proof -
      have "pow2 (- e - 1) * q = pow2 (- 53)"
        unfolding q_def using pow2_add [of "- e - 1" "e - 52"] by simp
      then show ?thesis using q by (simp add: field_simps)
    qed
    have half: "pow2 e * pow2 (- e - 1) = 1 / 2"
      using pow2_add [of e "- e - 1"] by (simp add: pow2_def)
    have "?y \<le> (1 - pow2 (- 53)) * real n"
      using double_below_one [OF d u] n(1) by simp
    then have "?y / q \<le> (1 - pow2 (- 53)) * real n / q" using q by (simp add: divide_right_mono)
    also have "\<dots> = real n / q - real n * (pow2 (- 53) / q)" by (simp add: algebra_simps diff_divide_distrib)
    also have "\<dots> = of_int N - real n * pow2 (- e - 1)" by (simp add: nq h)
    also have "\<dots> < of_int N - 1 / 2"
    proof -
      have "pow2 e * pow2 (- e - 1) < real n * pow2 (- e - 1)"
        using en pow2_pos [of "- e - 1"] by simp
      then show ?thesis using half by simp
    qed
    finally have "roundEven (?y / q) \<le> N - 1" by (rule roundEven_le)
    then have "(of_int (roundEven (?y / q)) :: real) \<le> of_int (N - 1)" by (simp only: of_int_le_iff)
    then have "of_int (roundEven (?y / q)) * q \<le> of_int (N - 1) * q" using q by simp
    also have "\<dots> = real n - q" using nq q by (simp add: field_simps)
    finally show ?thesis using ry q by simp
  qed
qed

section \<open>Properties: random selection\<close>

lemmas ex_defs = exRoot_def exTree_def exEvent_def exHistory_def exModel_def exOne_def
  exAdded_def exShield_def

lemmas op_defs = chooseEventAtRandom_def uniformRv_def uniformRvRange_def
  getNumberOfEvents_def truncInt_def deref_def getLastEventBefore_def popEventOffBranchHistory_def
  addEventToBranchHistory_def moveEventLocal_def moveEventGlobal_def relocate_def
  revertOldMapPosition_def setMeanBranchParameters_def getLastEvent_def setNodeEvent_def
  setAncestralNodeEvent_def getNumberOfBranchEvents_def newBranchEvent_def
  newBranchEventWithRandomParameters_def newBranchEventWithReadParameters_def
  setRootEventWithReadParameters_def insertCollection_def Let_def

lemma advance_drop: "advance k sit = (if k \<le> length sit then Inr (drop k sit) else Inl OutOfRange)"
  by (induction k sit rule: advance.induct) (auto split: list.splits)

lemma deref_drop: "k < length sit \<Longrightarrow> deref (drop k sit) = Inr (sit ! k)"
  by (simp add: deref_def Cons_nth_drop_Suc [symmetric])

lemma index_bounds:
  fixes u :: real
  assumes "0 \<le> u" "u < 1" "0 < n"
  shows "0 \<le> \<lfloor>u * real n\<rfloor>" "nat \<lfloor>u * real n\<rfloor> < n"
proof -
  show "0 \<le> \<lfloor>u * real n\<rfloor>" using assms by simp
  have "u * real n < real n" using assms by simp
  then have "\<lfloor>u * real n\<rfloor> < int n" by (simp add: floor_less_iff)
  then show "nat \<lfloor>u * real n\<rfloor> < n" using assms by linarith
qed

lemma rounded_index_bounds:
  fixes u :: real
  assumes "isDouble u" "0 \<le> u" "u < 1" "0 < n" "n < 2 ^ 31"
  shows "0 \<le> \<lfloor>rd (u * real n)\<rfloor>" "nat \<lfloor>rd (u * real n)\<rfloor> < n"
    "truncInt (rd (u * real n)) = \<lfloor>rd (u * real n)\<rfloor>"
proof -
  have "(2::nat) ^ 31 \<le> 2 ^ 53" by simp
  then have n53: "n < 2 ^ 53" using assms(5) by linarith
  note r = rd_product_less [OF assms(1-4) n53]
  show lo: "0 \<le> \<lfloor>rd (u * real n)\<rfloor>" using r(1) by simp
  have "\<lfloor>rd (u * real n)\<rfloor> < int n" using r(2) by (simp add: floor_less_iff)
  then show "nat \<lfloor>rd (u * real n)\<rfloor> < n" using lo by linarith
  show "truncInt (rd (u * real n)) = \<lfloor>rd (u * real n)\<rfloor>" using r(1) by (simp add: truncInt_def)
qed

lemma choose_nonempty:
  assumes "0 \<le> rngDraws m (rngPos m)" "rngDraws m (rngPos m) < 1" "isDouble (rngDraws m (rngPos m))"
    and "eventCollection m \<noteq> []" "length (eventCollection m) < 2 ^ 31"
  shows "chooseEventAtRandom m =
         Inr (eventCollection m ! nat \<lfloor>rd (rngDraws m (rngPos m) * real (length (eventCollection m)))\<rfloor>,
              m\<lparr>rngPos := Suc (rngPos m)\<rparr>)"
proof -
  let ?n = "length (eventCollection m)"
  let ?u = "rngDraws m (rngPos m)"
  have n: "0 < ?n" using assms(4) by simp
  note b = rounded_index_bounds [OF assms(3,1,2) n assms(5)]
  show ?thesis
    using n b(2,3) by (simp add: chooseEventAtRandom_def uniformRv_def Let_def advance_drop deref_drop)
qed

lemma choose_exit: "(chooseEventAtRandom m = Inl Exit) = (eventCollection m = [])"
  by (auto simp: chooseEventAtRandom_def uniformRv_def Let_def advance_drop deref_def
      split: sum.splits list.splits)

lemma choose_Inr:
  assumes "chooseEventAtRandom m = Inr (ev, m1)"
  shows "ev \<in> set (eventCollection m) \<and> m1 = m\<lparr>rngPos := Suc (rngPos m)\<rparr>"
proof -
  let ?k = "nat (truncInt (rd (rngDraws m (rngPos m) * real (length (eventCollection m)))))"
  have ne: "eventCollection m \<noteq> []" using assms by (auto simp: chooseEventAtRandom_def)
  have a: "(case advance ?k (eventCollection m) of
              Inl e \<Rightarrow> Inl e
            | Inr sit \<Rightarrow> (case deref sit of Inl e \<Rightarrow> Inl e
                 | Inr ev \<Rightarrow> Inr (ev, m\<lparr>rngPos := Suc (rngPos m)\<rparr>))) = Inr (ev, m1)"
    using assms ne by (simp add: chooseEventAtRandom_def uniformRv_def Let_def)
  have le: "?k \<le> length (eventCollection m)"
    using a by (auto simp: advance_drop split: if_splits)
  have d: "(case deref (drop ?k (eventCollection m)) of Inl e \<Rightarrow> Inl e
                 | Inr ev \<Rightarrow> Inr (ev, m\<lparr>rngPos := Suc (rngPos m)\<rparr>)) = Inr (ev, m1)"
    using a le by (simp add: advance_drop)
  obtain ys where ys: "drop ?k (eventCollection m) = ev # ys"
    and m1: "m1 = m\<lparr>rngPos := Suc (rngPos m)\<rparr>"
    using d by (auto simp: deref_def split: list.splits)
  have "ev \<in> set (drop ?k (eventCollection m))" using ys by simp
  then have "ev \<in> set (eventCollection m)" by (rule in_set_dropD)
  then show ?thesis using m1 by simp
qed

text \<open>Rounding a product below \<open>2 ^ 53\<close> keeps it between the integers around it.\<close>

lemma roundEven_ge: "of_int M \<le> z \<Longrightarrow> M \<le> roundEven z"
proof -
  assume "of_int M \<le> z"
  then have "M \<le> \<lfloor>z\<rfloor>" by (simp add: le_floor_iff)
  moreover have "\<lfloor>z\<rfloor> \<le> roundEven z" by (simp add: roundEven_def Let_def)
  ultimately show ?thesis by linarith
qed

lemma roundEven_le_int: "z \<le> of_int M \<Longrightarrow> roundEven z \<le> M"
proof (cases "z = of_int M")
  case True
  then show ?thesis by (simp add: roundEven_int)
next
  case False
  assume "z \<le> of_int M"
  then have "z < of_int M" using False by simp
  then have "\<lfloor>z\<rfloor> < M" by (simp add: floor_less_iff)
  moreover have "roundEven z \<le> \<lfloor>z\<rfloor> + 1" by (simp add: roundEven_def Let_def)
  ultimately show ?thesis by linarith
qed

lemma rd_between_integers:
  assumes y: "0 \<le> y" "y < 2 ^ 53"
  shows "of_int \<lfloor>y\<rfloor> \<le> rd y" "rd y \<le> of_int (\<lfloor>y\<rfloor> + 1)"
proof -
  define e where "e = max (- 1022) (ilog2 \<bar>y\<bar>)"
  define q where "q = pow2 (e - 52)"
  have q: "0 < q" unfolding q_def by (rule pow2_pos)
  have ry: "rd y = of_int (roundEven (y / q)) * q"
    unfolding q_def e_def by (simp add: rd_def Let_def)
  have e53: "e < 53"
  proof (cases "0 < y")
    case True
    have "pow2 (ilog2 y) \<le> y" using ilog2_bounds(1) [OF True] .
    also have "y < pow2 53" using y(2) by (simp add: pow2_def)
    finally have "ilog2 y < 53" by (rule pow2_less)
    then show ?thesis using True by (simp add: e_def)
  next
    case False
    then have "y = 0" using y(1) by simp
    then show ?thesis by (simp add: e_def ilog2_def)
  qed
  have qq: "pow2 (52 - e) * q = 1"
    unfolding q_def using pow2_add [of "52 - e" "e - 52"] by (simp add: pow2_def)
  have p52: "pow2 (52 - e) = of_int (2 ^ nat (52 - e))" using e53 by (intro pow2_nat) simp
  have grid: "of_int K / q = of_int (K * 2 ^ nat (52 - e))" for K :: int
  proof -
    have "of_int K / q = of_int K * pow2 (52 - e)" using qq q by (simp add: field_simps)
    then show ?thesis by (simp add: p52)
  qed
  have "of_int \<lfloor>y\<rfloor> / q \<le> y / q" using q by (simp add: divide_right_mono)
  then have "of_int (\<lfloor>y\<rfloor> * 2 ^ nat (52 - e)) \<le> y / q" by (simp only: grid)
  then have "\<lfloor>y\<rfloor> * 2 ^ nat (52 - e) \<le> roundEven (y / q)" by (rule roundEven_ge)
  then have "(of_int (\<lfloor>y\<rfloor> * 2 ^ nat (52 - e)) :: real) \<le> of_int (roundEven (y / q))"
    by (simp only: of_int_le_iff)
  then have "of_int \<lfloor>y\<rfloor> / q \<le> of_int (roundEven (y / q))" by (simp only: grid)
  then show "of_int \<lfloor>y\<rfloor> \<le> rd y" using q ry by (simp add: field_simps)
  have "y \<le> of_int (\<lfloor>y\<rfloor> + 1)" by linarith
  then have "y / q \<le> of_int (\<lfloor>y\<rfloor> + 1) / q" using q by (simp only: divide_right_mono less_imp_le)
  then have "y / q \<le> of_int ((\<lfloor>y\<rfloor> + 1) * 2 ^ nat (52 - e))" by (simp only: grid)
  then have "roundEven (y / q) \<le> (\<lfloor>y\<rfloor> + 1) * 2 ^ nat (52 - e)" by (rule roundEven_le_int)
  then have "(of_int (roundEven (y / q)) :: real) \<le> of_int ((\<lfloor>y\<rfloor> + 1) * 2 ^ nat (52 - e))"
    by (simp only: of_int_le_iff)
  then have "of_int (roundEven (y / q)) \<le> of_int (\<lfloor>y\<rfloor> + 1) / q" by (simp only: grid)
  then show "rd y \<le> of_int (\<lfloor>y\<rfloor> + 1)" using q ry by (simp add: field_simps)
qed

lemma rd_floor:
  assumes y: "0 \<le> y" "y < 2 ^ 53"
  shows "\<lfloor>rd y\<rfloor> = (if rd y = of_int (\<lfloor>y\<rfloor> + 1) then \<lfloor>y\<rfloor> + 1 else \<lfloor>y\<rfloor>)"
proof (cases "rd y = of_int (\<lfloor>y\<rfloor> + 1)")
  case True
  then show ?thesis by simp
next
  case False
  have "rd y < of_int (\<lfloor>y\<rfloor> + 1)" using rd_between_integers(2) [OF y] False by simp
  then have "\<lfloor>rd y\<rfloor> = \<lfloor>y\<rfloor>" using rd_between_integers(1) [OF y] by (intro floor_unique) simp_all
  then show ?thesis using False by simp
qed

lemma exTen_draw:
  "isDouble (rngDraws exTen (rngPos exTen))" "0 \<le> rngDraws exTen (rngPos exTen)"
  "rngDraws exTen (rngPos exTen) < 1" "eventCollection exTen \<noteq> []"
  "length (eventCollection exTen) < 2 ^ 31"
  "rd (rngDraws exTen (rngPos exTen) * real (length (eventCollection exTen))) = 3"
  "\<lfloor>rngDraws exTen (rngPos exTen) * real (length (eventCollection exTen))\<rfloor> = 2"
proof -
  show "isDouble (rngDraws exTen (rngPos exTen))" by code_simp
  show "0 \<le> rngDraws exTen (rngPos exTen)" by code_simp
  show "rngDraws exTen (rngPos exTen) < 1" by code_simp
  show "eventCollection exTen \<noteq> []" by (simp add: exTen_def)
  show "length (eventCollection exTen) < 2 ^ 31" by (simp add: exTen_def)
  show "rd (rngDraws exTen (rngPos exTen) * real (length (eventCollection exTen))) = 3"
    by code_simp
  show "\<lfloor>rngDraws exTen (rngPos exTen) * real (length (eventCollection exTen))\<rfloor> = 2"
    by code_simp
qed

text \<open>C5, as the code has it: \<open>chooseEventAtRandom\<close> exits fatally if and only if the Event
  Registry is empty; with \<open>n \<ge> 1\<close> events (a number that fits an \<open>int\<close>) and a draw \<open>u\<close>, a
  double in \<open>[0,1)\<close>, it consumes that one draw and returns the element at the index got by
  truncating the double product of \<open>u\<close> and \<open>n\<close>. That index is \<open>floor (u * n)\<close> unless
  the product rounds to the next integer, and then it is \<open>floor (u * n) + 1\<close>.\<close>

theorem chooseEventAtRandom_exit_or_index:
  assumes "0 \<le> rngDraws m (rngPos m)" and "rngDraws m (rngPos m) < 1"
    and "isDouble (rngDraws m (rngPos m))" and "length (eventCollection m) < 2 ^ 31"
  shows "(chooseEventAtRandom m = Inl Exit) = (eventCollection m = []) \<and>
         (eventCollection m \<noteq> [] \<longrightarrow>
            chooseEventAtRandom m =
              Inr (eventCollection m !
                     nat \<lfloor>rd (rngDraws m (rngPos m) * real (length (eventCollection m)))\<rfloor>,
                   m\<lparr>rngPos := Suc (rngPos m)\<rparr>) \<and>
            \<lfloor>rd (rngDraws m (rngPos m) * real (length (eventCollection m)))\<rfloor> =
              (if rd (rngDraws m (rngPos m) * real (length (eventCollection m))) =
                    of_int (\<lfloor>rngDraws m (rngPos m) * real (length (eventCollection m))\<rfloor> + 1)
               then \<lfloor>rngDraws m (rngPos m) * real (length (eventCollection m))\<rfloor> + 1
               else \<lfloor>rngDraws m (rngPos m) * real (length (eventCollection m))\<rfloor>))"
proof -
  let ?n = "length (eventCollection m)"
  let ?u = "rngDraws m (rngPos m)"
  have y0: "0 \<le> ?u * real ?n" using assms(1) by simp
  have "?u * real ?n \<le> real ?n" using assms(1,2) by (simp add: mult_left_le_one_le)
  also have "real ?n < 2 ^ 31" using assms(4) by (simp add: of_nat_less_numeral_power_cancel_iff)
  also have "(2::real) ^ 31 \<le> 2 ^ 53" by simp
  finally have y53: "?u * real ?n < 2 ^ 53" .
  show ?thesis
    using choose_exit [of m] choose_nonempty [OF assms(1,2,3) _ assms(4)] rd_floor [OF y0 y53]
    by blast
qed

theorem chooseEventAtRandom_exit_or_index_witness:
  "0 \<le> rngDraws exTen (rngPos exTen) \<and> rngDraws exTen (rngPos exTen) < 1 \<and>
   isDouble (rngDraws exTen (rngPos exTen)) \<and> length (eventCollection exTen) < 2 ^ 31 \<and>
   eventCollection exTen \<noteq> [] \<and>
   chooseEventAtRandom exTen = Inr (4, exTen\<lparr>rngPos := Suc (rngPos exTen)\<rparr>) \<and>
   chooseEventAtRandom exTen \<noteq> Inl Exit"
proof -
  have i: "eventCollection exTen ! nat \<lfloor>3 :: real\<rfloor> = 4" by (simp add: exTen_def)
  show ?thesis
    using chooseEventAtRandom_exit_or_index [OF exTen_draw(2,3,1,5)] exTen_draw i by simp
qed

text \<open>With ten events and the draw 0.3 (the double nearest to it, which is below 0.3), the
  double product is 3 and the fourth element is returned; \<open>floor (u * n)\<close> is 2.\<close>

theorem chooseEventAtRandom_index_counterexample:
  "0 \<le> rngDraws exTen (rngPos exTen) \<and> rngDraws exTen (rngPos exTen) < 1 \<and>
   isDouble (rngDraws exTen (rngPos exTen)) \<and>
   \<lfloor>rngDraws exTen (rngPos exTen) * real (length (eventCollection exTen))\<rfloor> = 2 \<and>
   eventCollection exTen ! 2 = 3 \<and>
   map_sum id fst (chooseEventAtRandom exTen) = Inr 4"
proof -
  have 1: "0 \<le> rngDraws exTen (rngPos exTen)" "rngDraws exTen (rngPos exTen) < 1"
    "isDouble (rngDraws exTen (rngPos exTen))"
    "\<lfloor>rngDraws exTen (rngPos exTen) * real (length (eventCollection exTen))\<rfloor> = 2"
    by code_simp+
  have 2: "eventCollection exTen ! 2 = 3" by (simp add: exTen_def)
  have 3: "map_sum id fst (chooseEventAtRandom exTen) = Inr 4" by code_simp
  show ?thesis using 1 2 3 by simp
qed

text \<open>C10: with \<open>n \<ge> 1\<close> events (a number that fits an \<open>int\<close>) and a draw \<open>u\<close>, a double in
  \<open>[0,1)\<close>, the index computed by \<open>chooseEventAtRandom\<close> (the truncated double product) lies
  between \<open>0\<close> and \<open>n - 1\<close>, and so does \<open>floor (u * n)\<close>; the iterator can be stepped that
  many times, and what is returned is an element of the Registry: the out-of-range access
  is not reached.\<close>

theorem chooseEventAtRandom_index_in_range:
  assumes "eventCollection m \<noteq> []"
    and "0 \<le> rngDraws m (rngPos m)" and "rngDraws m (rngPos m) < 1"
    and "isDouble (rngDraws m (rngPos m))" and "length (eventCollection m) < 2 ^ 31"
  shows "0 \<le> truncInt (rd (rngDraws m (rngPos m) * real (length (eventCollection m)))) \<and>
         truncInt (rd (rngDraws m (rngPos m) * real (length (eventCollection m))))
           \<le> int (length (eventCollection m)) - 1 \<and>
         0 \<le> truncInt (rngDraws m (rngPos m) * real (length (eventCollection m))) \<and>
         truncInt (rngDraws m (rngPos m) * real (length (eventCollection m)))
           \<le> int (length (eventCollection m)) - 1 \<and>
         chooseEventAtRandom m \<noteq> Inl OutOfRange \<and>
         (\<exists>ev m'. chooseEventAtRandom m = Inr (ev, m') \<and> ev \<in> set (eventCollection m))"
proof -
  let ?n = "length (eventCollection m)"
  let ?u = "rngDraws m (rngPos m)"
  have n: "0 < ?n" using assms(1) by simp
  note b = rounded_index_bounds [OF assms(4,2,3) n assms(5)]
  have hi: "\<lfloor>rd (?u * real ?n)\<rfloor> \<le> int ?n - 1" using b(1,2) by linarith
  have t: "truncInt (?u * real ?n) = \<lfloor>?u * real ?n\<rfloor>"
    using assms(2) by (simp add: truncInt_def)
  have lo': "0 \<le> \<lfloor>?u * real ?n\<rfloor>" using index_bounds(1) [OF assms(2,3) n] .
  have k': "nat \<lfloor>?u * real ?n\<rfloor> < ?n" using index_bounds(2) [OF assms(2,3) n] .
  have hi': "\<lfloor>?u * real ?n\<rfloor> \<le> int ?n - 1" using k' lo' by linarith
  have c: "chooseEventAtRandom m = Inr (eventCollection m ! nat \<lfloor>rd (?u * real ?n)\<rfloor>,
      m\<lparr>rngPos := Suc (rngPos m)\<rparr>)"
    using choose_nonempty [OF assms(2,3,4,1,5)] .
  have mem: "eventCollection m ! nat \<lfloor>rd (?u * real ?n)\<rfloor> \<in> set (eventCollection m)"
    using b(2) by (rule nth_mem)
  have ne: "chooseEventAtRandom m \<noteq> Inl OutOfRange" using c by simp
  show ?thesis using b(1,3) hi t lo' hi' c mem ne by metis
qed

theorem chooseEventAtRandom_index_in_range_witness:
  "eventCollection exTen \<noteq> [] \<and> 0 \<le> rngDraws exTen (rngPos exTen) \<and>
   rngDraws exTen (rngPos exTen) < 1 \<and> isDouble (rngDraws exTen (rngPos exTen)) \<and>
   length (eventCollection exTen) < 2 ^ 31 \<and>
   truncInt (rd (rngDraws exTen (rngPos exTen) * real (length (eventCollection exTen)))) = 3 \<and>
   chooseEventAtRandom exTen \<noteq> Inl OutOfRange"
  using chooseEventAtRandom_index_in_range [OF exTen_draw(4,2,3,1,5)] exTen_draw
  by (simp add: truncInt_def)


section \<open>Properties: the initializer's node resolution\<close>

lemma initializeRecord_exit:
  "(initializeRecord species1 species2 eTime ps m = Inl InitExit) = (species1 = ''NA'')"
  by (auto simp: initializeRecord_def resolveNode_def Let_def
      split: option.splits sum.splits prod.splits)

text \<open>C6, as the code has it: when neither name is \<open>NA\<close> the node is the most recent common
  ancestor of the two species; when only the second is \<open>NA\<close> it is the node of the first
  name; and the initializer's own fatal exit is taken exactly when the first name is \<open>NA\<close>,
  whatever the second is.\<close>

theorem initializer_node_resolution:
  "(species1 \<noteq> ''NA'' \<and> species2 \<noteq> ''NA'' \<longrightarrow>
      resolveNode T species1 species2 =
        (case nodeMRCA T species1 species2 of None \<Rightarrow> Inl Unresolved | Some x \<Rightarrow> Inr x)) \<and>
   (species1 \<noteq> ''NA'' \<and> species2 = ''NA'' \<longrightarrow>
      resolveNode T species1 species2 =
        (case nodeByName T species1 of None \<Rightarrow> Inl Unresolved | Some x \<Rightarrow> Inr x)) \<and>
   ((initializeRecord species1 species2 eTime ps m = Inl InitExit) = (species1 = ''NA''))"
  using initializeRecord_exit [of species1 species2 eTime ps m]
  by (simp add: resolveNode_def)

theorem initializer_node_resolution_witness:
  "''A'' \<noteq> ''NA'' \<and> ''B'' \<noteq> ''NA'' \<and> resolveNode exTree ''A'' ''B'' = Inr 4 \<and>
   resolveNode exTree ''A'' ''NA'' = Inr 1 \<and>
   initializeRecord ''A'' ''B'' 0 () exModel \<noteq> Inl InitExit \<and>
   initializeRecord ''NA'' ''NA'' 0 () exModel = Inl InitExit"
  using initializer_node_resolution [of "''A''" "''B''" exTree 0 "()" exModel]
    initializer_node_resolution [of "''A''" "''NA''" exTree 0 "()" exModel]
    initializer_node_resolution [of "''NA''" "''NA''" exTree 0 "()" exModel]
  by (simp add: exTree_def)

text \<open>The initializer also exits when only the first name is \<open>NA\<close>.\<close>

theorem initializer_exit_first_NA_counterexample:
  "initializeRecord ''NA'' ''A'' 0 () exModel = Inl InitExit \<and> ''A'' \<noteq> ''NA''"
  by (simp add: initializeRecord_def resolveNode_def)

section \<open>Properties: a move without events\<close>

lemma eventMove_no_events:
  "eventCollection m = [] \<Longrightarrow> eventMove local m = Inr (setMeanBranchParameters m)"
  by (simp add: eventMove_def getNumberOfEvents_def)

text \<open>C8, as the code has it: with an empty Registry, \<open>eventMove\<close> (local or global) leaves
  the Registry, the branch histories with both cached references, \<open>lastEventModified\<close> and
  the random stream as they are and only recomputes the derived per-branch means; these
  are unchanged too when they were current.\<close>

theorem eventMove_empty_registry:
  "eventCollection m = [] \<Longrightarrow>
   eventMove local m = Inr (m\<lparr>meanBranch := computeMeanBranch m (histories m) (events m)\<rparr>) \<and>
   (meanBranch m = computeMeanBranch m (histories m) (events m) \<longrightarrow> eventMove local m = Inr m)"
  using eventMove_no_events [of m local] by (auto simp: setMeanBranchParameters_def)

theorem eventMove_empty_registry_witness:
  "eventCollection (exModel\<lparr>meanBranch := [0, 0, 0, 0, 0, 0, 0]\<rparr>) = [] \<and>
   meanBranch (exModel\<lparr>meanBranch := [0, 0, 0, 0, 0, 0, 0]\<rparr>) =
     computeMeanBranch (exModel\<lparr>meanBranch := [0, 0, 0, 0, 0, 0, 0]\<rparr>)
       (histories (exModel\<lparr>meanBranch := [0, 0, 0, 0, 0, 0, 0]\<rparr>))
       (events (exModel\<lparr>meanBranch := [0, 0, 0, 0, 0, 0, 0]\<rparr>)) \<and>
   eventMove False (exModel\<lparr>meanBranch := [0, 0, 0, 0, 0, 0, 0]\<rparr>) =
     Inr (exModel\<lparr>meanBranch := [0, 0, 0, 0, 0, 0, 0]\<rparr>)"
  using eventMove_empty_registry [of "exModel\<lparr>meanBranch := [0, 0, 0, 0, 0, 0, 0]\<rparr>" False]
  by (simp add: ex_defs)

text \<open>With an empty Registry and means not yet computed, the move changes the means.\<close>

theorem eventMove_empty_registry_counterexample:
  "eventCollection exModel = [] \<and> meanBranch exModel = [] \<and>
   map_sum id meanBranch (eventMove True exModel) = Inr [0, 0, 0, 0, 0, 0, 0]"
  by (simp add: ex_defs eventMove_def getNumberOfEvents_def setMeanBranchParameters_def)

section \<open>Properties: the propagation engine\<close>

lemma subtrees_ids: "s \<in> set (subtrees t) \<Longrightarrow> set (nodeIds s) \<subseteq> set (nodeIds t)"
  by (induction t) auto

lemma subtrees_trans: "s \<in> set (subtrees t) \<Longrightarrow> set (subtrees s) \<subseteq> set (subtrees t)"
  by (induction t) auto

lemma subtrees_self: "t \<noteq> NULL \<Longrightarrow> t \<in> set (subtrees t)"
  by (cases t) auto

lemma isNode_ids: "isNode t i \<Longrightarrow> i \<in> set (nodeIds t)"
  by (cases t) auto

lemma getAnc_ids: "getAnc t i = Some a \<Longrightarrow> i \<in> set (nodeIds t) \<and> a \<in> set (nodeIds t)"
  by (induction t) (auto split: if_splits option.splits dest: isNode_ids)

lemma getAnc_notin: "i \<notin> set (nodeIds t) \<Longrightarrow> getAnc t i = None"
  using getAnc_ids by (cases "getAnc t i") auto

lemma getAnc_child:
  "distinct (nodeIds t) \<Longrightarrow> Node a l r \<in> set (subtrees t) \<Longrightarrow> isNode l i \<or> isNode r i \<Longrightarrow>
   getAnc t i = Some a"
proof (induction t)
  case NULL
  then show ?case by simp
next
  case (Node k tl tr)
  have il: "i \<in> set (nodeIds l) \<union> set (nodeIds r)"
    using Node.prems(3) isNode_ids by auto
  show ?case
  proof (cases "Node a l r = Node k tl tr")
    case True
    then show ?thesis using Node.prems(3) by simp
  next
    case False
    then consider (L) "Node a l r \<in> set (subtrees tl)" | (R) "Node a l r \<in> set (subtrees tr)"
      using Node.prems(2) by auto
    then show ?thesis
    proof cases
      case L
      have sub: "set (nodeIds (Node a l r)) \<subseteq> set (nodeIds tl)" using subtrees_ids [OF L] .
      have itl: "i \<in> set (nodeIds tl)" using il sub by auto
      have "tl \<noteq> NULL" using L by auto
      then obtain j x y where tl: "tl = Node j x y" by (cases tl) auto
      have dtl: "distinct (nodeIds tl)" using Node.prems(1) by simp
      have "i \<noteq> j"
      proof
        assume "i = j"
        show False
        proof (cases "Node a l r = tl")
          case True
          then show ?thesis using il tl dtl \<open>i = j\<close> by auto
        next
          case False
          then have "Node a l r \<in> set (subtrees x) \<union> set (subtrees y)" using L tl by auto
          then have "i \<in> set (nodeIds x) \<union> set (nodeIds y)"
            using il subtrees_ids by fastforce
          then show ?thesis using dtl tl \<open>i = j\<close> by auto
        qed
      qed
      then have n1: "\<not> isNode tl i" using tl by auto
      have "i \<notin> set (nodeIds tr)" using itl Node.prems(1) by auto
      then have n2: "\<not> isNode tr i" using isNode_ids by blast
      have "getAnc tl i = Some a" using Node.IH(1) [OF dtl L Node.prems(3)] .
      then show ?thesis using n1 n2 by simp
    next
      case R
      have sub: "set (nodeIds (Node a l r)) \<subseteq> set (nodeIds tr)" using subtrees_ids [OF R] .
      have itr: "i \<in> set (nodeIds tr)" using il sub by auto
      have "tr \<noteq> NULL" using R by auto
      then obtain j x y where tr: "tr = Node j x y" by (cases tr) auto
      have dtr: "distinct (nodeIds tr)" using Node.prems(1) by simp
      have "i \<noteq> j"
      proof
        assume "i = j"
        show False
        proof (cases "Node a l r = tr")
          case True
          then show ?thesis using il tr dtr \<open>i = j\<close> by auto
        next
          case False
          then have "Node a l r \<in> set (subtrees x) \<union> set (subtrees y)" using R tr by auto
          then have "i \<in> set (nodeIds x) \<union> set (nodeIds y)"
            using il subtrees_ids by fastforce
          then show ?thesis using dtr tr \<open>i = j\<close> by auto
        qed
      qed
      then have n2: "\<not> isNode tr i" using tr by auto
      have nl: "i \<notin> set (nodeIds tl)" using itr Node.prems(1) by auto
      then have n1: "\<not> isNode tl i" using isNode_ids by blast
      have "getAnc tr i = Some a" using Node.IH(2) [OF dtr R Node.prems(3)] .
      then show ?thesis using n1 n2 getAnc_notin [OF nl] by simp
    qed
  qed
qed

lemma parentsAgree_children:
  "distinct (nodeIds t) \<Longrightarrow> Node a l r \<in> set (subtrees t) \<Longrightarrow>
   parentsAgree t a l \<and> parentsAgree t a r"
proof (induction "Node a l r" arbitrary: a l r)
  case (Node a l r)
  have pl: "parentsAgree t a l"
  proof (cases l)
    case NULL
    then show ?thesis by simp
  next
    case (Node i ll lr)
    then have "l \<in> set (subtrees (Node a l r))" by simp
    then have lin: "Node i ll lr \<in> set (subtrees t)"
      using subtrees_trans [OF Node.prems(2)] Node by auto
    have "getAnc t i = Some a"
      using getAnc_child [OF Node.prems(1,2), of i] Node by simp
    then show ?thesis using Node.hyps(1) [OF Node Node.prems(1) lin] Node by simp
  qed
  have pr: "parentsAgree t a r"
  proof (cases r)
    case NULL
    then show ?thesis by simp
  next
    case (Node i rl rr)
    then have "r \<in> set (subtrees (Node a l r))" by simp
    then have rin: "Node i rl rr \<in> set (subtrees t)"
      using subtrees_trans [OF Node.prems(2)] Node by auto
    have "getAnc t i = Some a"
      using getAnc_child [OF Node.prems(1,2), of i] Node by simp
    then show ?thesis using Node.hyps(2) [OF Node Node.prems(1) rin] Node by simp
  qed
  show ?case using pl pr by simp
qed

lemma findNode_subtree:
  "i \<in> set (nodeIds t) \<Longrightarrow> \<exists>l r. findNode t i = Node i l r \<and> Node i l r \<in> set (subtrees t)"
proof (induction t)
  case NULL
  then show ?case by simp
next
  case (Node k tl tr)
  show ?case
  proof (cases "k = i")
    case True
    then show ?thesis by simp
  next
    case False
    show ?thesis
    proof (cases "i \<in> set (nodeIds tl)")
      case True
      then obtain l r where "findNode tl i = Node i l r" "Node i l r \<in> set (subtrees tl)"
        using Node.IH(1) by blast
      then show ?thesis using False by simp
    next
      case nl: False
      then have "i \<in> set (nodeIds tr)" using Node.prems False by simp
      then obtain l r where f: "findNode tr i = Node i l r" "Node i l r \<in> set (subtrees tr)"
        using Node.IH(2) by blast
      have "findNode tl i = NULL"
      proof (cases "findNode tl i")
        case NULL then show ?thesis .
      next
        case (Node a b c)
        have "\<And>t. findNode t i = Node a b c \<Longrightarrow> a = i \<and> i \<in> set (nodeIds t)"
        proof -
          fix t show "findNode t i = Node a b c \<Longrightarrow> a = i \<and> i \<in> set (nodeIds t)"
            by (induction t) (auto split: if_splits node.splits)
        qed
        then show ?thesis using Node nl by blast
      qed
      then show ?thesis using f False by simp
    qed
  qed
qed

lemma fSHR_propagate:
  "parentsAgree T a p \<Longrightarrow> root (theTree m) = T \<Longrightarrow> p \<noteq> NULL \<Longrightarrow>
   forwardSetHistoriesRecursive m p = Inr (m\<lparr>histories := propagate (histories m) a p\<rparr>)"
proof (induction p arbitrary: m a)
  case NULL
  then show ?case by simp
next
  case (Node i l r)
  have anc: "getAnc T i = Some a" using Node.prems(1) by simp
  have pal: "parentsAgree T i l" and par: "parentsAgree T i r" using Node.prems(1) by simp_all
  note pl = Node.IH(1) [OF pal]
  note pr = Node.IH(2) [OF par]
  show ?case
    by (cases "l = NULL"; cases "r = NULL")
       (simp_all add: anc pl pr Node.prems(2) Let_def setAncestralNodeEvent_def setNodeEvent_def
          getNumberOfBranchEvents_def fun_upd_def)
qed


lemma binary_subtree:
  "binary t \<Longrightarrow> Node a l r \<in> set (subtrees t) \<Longrightarrow> (l = NULL) = (r = NULL)"
  by (induction t) auto

lemma isNode_findNode: "isNode t i \<Longrightarrow> findNode t i = t"
  by (cases t) auto

lemma fSHR_both:
  assumes "parentsAgree T a l" "parentsAgree T a r" "root (theTree m) = T" "l \<noteq> NULL" "r \<noteq> NULL"
  shows "(case forwardSetHistoriesRecursive m l of Inl e \<Rightarrow> Inl e
          | Inr m1 \<Rightarrow> forwardSetHistoriesRecursive m1 r) =
         Inr (m\<lparr>histories := propagate (propagate (histories m) a l) a r\<rparr>)"
proof -
  have 1: "forwardSetHistoriesRecursive m l = Inr (m\<lparr>histories := propagate (histories m) a l\<rparr>)"
    using fSHR_propagate [OF assms(1,3,4)] .
  have "root (theTree (m\<lparr>histories := propagate (histories m) a l\<rparr>)) = T"
    using assms(3) by simp
  from fSHR_propagate [OF assms(2) this assms(5)] 1 show ?thesis by simp
qed

lemma fSBH_spec:
  assumes d: "distinct (nodeIds (root (theTree m)))"
    and b: "binary (root (theTree m))"
    and n: "eventNode (events m x) \<in> set (nodeIds (root (theTree m)))"
    and rt: "x = rootEvent m \<longrightarrow>
               isNode (root (theTree m)) (eventNode (events m x)) \<and>
               getLfDesc (root (theTree m)) \<noteq> NULL"
  shows "forwardSetBranchHistories m (Some x) = Inr (m\<lparr>histories := forwardSetSpec m x\<rparr>)"
proof -
  let ?T = "root (theTree m)"
  let ?i = "eventNode (events m x)"
  obtain l r where f: "findNode ?T ?i = Node ?i l r" and s: "Node ?i l r \<in> set (subtrees ?T)"
    using findNode_subtree [OF n] by blast
  have pa: "parentsAgree ?T ?i l" "parentsAgree ?T ?i r"
    using parentsAgree_children [OF d s] by simp_all
  have lr: "(l = NULL) = (r = NULL)" using binary_subtree [OF b s] .
  show ?thesis
  proof (cases "x = rootEvent m")
    case True
    then have "findNode ?T ?i = ?T" using rt isNode_findNode by blast
    then have T: "?T = Node ?i l r" using f by simp
    then have "l \<noteq> NULL" using rt True by (metis getLfDesc.simps(2))
    then have "r \<noteq> NULL" using lr by simp
    from fSHR_both [OF pa refl \<open>l \<noteq> NULL\<close> this] show ?thesis
      using True f T by (simp add: forwardSetSpec_def)
  next
    case False
    show ?thesis
    proof (cases "l = NULL")
      case True
      then show ?thesis using False f lr
        by (simp add: forwardSetSpec_def Let_def setNodeEvent_def eq_commute [of "Some x"])
    next
      case nl: False
      then have nr: "r \<noteq> NULL" using lr by simp
      have "root (theTree (setNodeEvent ?i (Some x) m)) = ?T" by (simp add: setNodeEvent_def)
      from fSHR_both [OF pa this nl nr] show ?thesis using False f nl nr
        by (simp add: forwardSetSpec_def Let_def setNodeEvent_def eq_commute [of "Some x"])
    qed
  qed
qed

lemma propagate_frame: "j \<notin> set (nodeIds p) \<Longrightarrow> propagate h a p j = h j"
  by (induction p arbitrary: h a) (auto simp: Let_def)

lemma propagate_events: "eventsOnBranch (propagate h a p j) = eventsOnBranch (h j)"
  by (induction p arbitrary: h a) (auto simp: Let_def)

lemma propagate_shielded:
  "distinct (nodeIds p) \<Longrightarrow> Node n nl nr \<in> set (subtrees p) \<Longrightarrow> eventsOnBranch (h n) \<noteq> [] \<Longrightarrow>
   nodeEvent (propagate h a p n) = nodeEvent (h n) \<and>
   (\<forall>d \<in> set (nodeIds nl) \<union> set (nodeIds nr). propagate h a p d = h d)"
proof (induction p arbitrary: h a)
  case NULL
  then show ?case by simp
next
  case (Node k pl pr)
  let ?v = "nodeEvent (h a)"
  let ?h1 = "h(k := (h k)\<lparr>ancestralNodeEvent := ?v\<rparr>)"
  let ?h2 = "?h1(k := (?h1 k)\<lparr>nodeEvent := ?v\<rparr>)"
  show ?case
  proof (cases "eventsOnBranch (h k) = []")
    case False
    have sub: "set (nodeIds (Node n nl nr)) \<subseteq> set (nodeIds (Node k pl pr))"
      using subtrees_ids [OF Node.prems(2)] .
    have "\<forall>d \<in> set (nodeIds nl) \<union> set (nodeIds nr). d \<noteq> k"
    proof (cases "Node n nl nr = Node k pl pr")
      case True
      then show ?thesis using Node.prems(1) by auto
    next
      case False
      then have "Node n nl nr \<in> set (subtrees pl) \<union> set (subtrees pr)" using Node.prems(2) by auto
      then have "set (nodeIds (Node n nl nr)) \<subseteq> set (nodeIds pl) \<union> set (nodeIds pr)"
        using subtrees_ids by blast
      then show ?thesis using Node.prems(1) by auto
    qed
    then show ?thesis using False by (auto simp: Let_def)
  next
    case True
    then have nk: "n \<noteq> k" using Node.prems(3) by auto
    have res: "propagate h a (Node k pl pr) = propagate (propagate ?h2 k pl) k pr"
      using True by (simp add: Let_def)
    from nk Node.prems(2) consider (L) "Node n nl nr \<in> set (subtrees pl)"
      | (R) "Node n nl nr \<in> set (subtrees pr)" by auto
    then show ?thesis
    proof cases
      case L
      have sub: "set (nodeIds (Node n nl nr)) \<subseteq> set (nodeIds pl)" using subtrees_ids [OF L] .
      have ev: "eventsOnBranch (?h2 n) \<noteq> []" using nk Node.prems(3) by simp
      have dl: "distinct (nodeIds pl)" using Node.prems(1) by simp
      have ih: "nodeEvent (propagate ?h2 k pl n) = nodeEvent (?h2 n) \<and>
          (\<forall>d \<in> set (nodeIds nl) \<union> set (nodeIds nr). propagate ?h2 k pl d = ?h2 d)"
        using Node.IH(1) [where h = "?h2" and a = k, OF dl L ev] .
      have out: "\<And>d. d \<in> set (nodeIds (Node n nl nr)) \<Longrightarrow> d \<notin> set (nodeIds pr) \<and> d \<noteq> k"
        using sub Node.prems(1) by auto
      have fr: "\<And>d. d \<in> set (nodeIds (Node n nl nr)) \<Longrightarrow>
          propagate (propagate ?h2 k pl) k pr d = propagate ?h2 k pl d"
        using out propagate_frame by blast
      show ?thesis unfolding res using ih fr out by auto
    next
      case R
      have sub: "set (nodeIds (Node n nl nr)) \<subseteq> set (nodeIds pr)" using subtrees_ids [OF R] .
      have out: "\<And>d. d \<in> set (nodeIds (Node n nl nr)) \<Longrightarrow> d \<notin> set (nodeIds pl) \<and> d \<noteq> k"
        using sub Node.prems(1) by auto
      have fr: "\<And>d. d \<in> set (nodeIds (Node n nl nr)) \<Longrightarrow> propagate ?h2 k pl d = h d"
        using out propagate_frame [of _ pl ?h2 k] by auto
      have ev: "eventsOnBranch (propagate ?h2 k pl n) \<noteq> []"
        using Node.prems(3) nk by (simp add: propagate_events)
      have dr: "distinct (nodeIds pr)" using Node.prems(1) by simp
      have ih: "nodeEvent (propagate (propagate ?h2 k pl) k pr n) = nodeEvent (propagate ?h2 k pl n) \<and>
          (\<forall>d \<in> set (nodeIds nl) \<union> set (nodeIds nr).
              propagate (propagate ?h2 k pl) k pr d = propagate ?h2 k pl d)"
        using Node.IH(2) [where h = "propagate ?h2 k pl" and a = k, OF dr R ev] .
      show ?thesis unfolding res using ih fr by auto
    qed
  qed
qed

lemma subtrees_distinct: "distinct (nodeIds t) \<Longrightarrow> s \<in> set (subtrees t) \<Longrightarrow> distinct (nodeIds s)"
  by (induction t) auto

lemma propagate2_frame:
  "j \<notin> set (nodeIds (Node i l r)) \<Longrightarrow> propagate (propagate h i l) i r j = h j"
  by (simp add: propagate_frame)

lemma propagate2_shielded:
  assumes d: "distinct (nodeIds (Node i l r))"
    and k: "Node k kl kr \<in> set (subtrees l) \<union> set (subtrees r)"
    and e: "eventsOnBranch (h k) \<noteq> []"
  shows "nodeEvent (propagate (propagate h i l) i r k) = nodeEvent (h k) \<and>
         (\<forall>d \<in> set (nodeIds kl) \<union> set (nodeIds kr). propagate (propagate h i l) i r d = h d)"
proof -
  have dl: "distinct (nodeIds l)" and dr: "distinct (nodeIds r)" using d by simp_all
  from k show ?thesis
  proof
    assume L: "Node k kl kr \<in> set (subtrees l)"
    have sub: "set (nodeIds (Node k kl kr)) \<subseteq> set (nodeIds l)" using subtrees_ids [OF L] .
    have fr: "propagate (propagate h i l) i r j = propagate h i l j"
      if "j \<in> set (nodeIds (Node k kl kr))" for j
    proof -
      have "j \<in> set (nodeIds l)" using that sub by blast
      then have "j \<notin> set (nodeIds r)" using d by auto
      then show ?thesis by (rule propagate_frame)
    qed
    have sh: "nodeEvent (propagate h i l k) = nodeEvent (h k) \<and>
        (\<forall>d \<in> set (nodeIds kl) \<union> set (nodeIds kr). propagate h i l d = h d)"
      using propagate_shielded [where h = h and a = i, OF dl L e] .
    show ?thesis using sh fr by auto
  next
    assume R: "Node k kl kr \<in> set (subtrees r)"
    have sub: "set (nodeIds (Node k kl kr)) \<subseteq> set (nodeIds r)" using subtrees_ids [OF R] .
    have fr: "propagate h i l j = h j" if "j \<in> set (nodeIds (Node k kl kr))" for j
    proof -
      have "j \<in> set (nodeIds r)" using that sub by blast
      then have "j \<notin> set (nodeIds l)" using d by auto
      then show ?thesis by (rule propagate_frame)
    qed
    have e': "eventsOnBranch (propagate h i l k) \<noteq> []" using e by (simp add: propagate_events)
    have sh: "nodeEvent (propagate (propagate h i l) i r k) = nodeEvent (propagate h i l k) \<and>
        (\<forall>d \<in> set (nodeIds kl) \<union> set (nodeIds kr).
            propagate (propagate h i l) i r d = propagate h i l d)"
      using propagate_shielded [where h = "propagate h i l" and a = i, OF dr R e'] .
    show ?thesis using sh fr by auto
  qed
qed

lemma forwardSetSpec_frame:
  assumes f: "findNode (root (theTree m)) (eventNode (events m x)) = Node i l r"
    and rt: "x = rootEvent m \<longrightarrow> root (theTree m) = Node i l r"
    and j: "j \<notin> set (nodeIds (Node i l r))"
  shows "forwardSetSpec m x j = histories m j"
  using f rt j by (auto simp: forwardSetSpec_def Let_def propagate_frame)

lemma forwardSetSpec_shielded:
  assumes f: "findNode (root (theTree m)) (eventNode (events m x)) = Node i l r"
    and rt: "x = rootEvent m \<longrightarrow> root (theTree m) = Node i l r"
    and d: "distinct (nodeIds (Node i l r))"
    and k: "Node k kl kr \<in> set (subtrees l) \<union> set (subtrees r)"
    and e: "eventsOnBranch (histories m k) \<noteq> []"
  shows "nodeEvent (forwardSetSpec m x k) = nodeEvent (histories m k) \<and>
         (\<forall>d \<in> set (nodeIds kl) \<union> set (nodeIds kr). forwardSetSpec m x d = histories m d)"
proof -
  let ?h = "histories m"
  let ?h1 = "?h(i := (?h i)\<lparr>nodeEvent := Some x\<rparr>)"
  have sub: "set (nodeIds (Node k kl kr)) \<subseteq> set (nodeIds l) \<union> set (nodeIds r)"
    using k subtrees_ids by blast
  then have ni: "\<And>j. j \<in> set (nodeIds (Node k kl kr)) \<Longrightarrow> j \<noteq> i" using d by auto
  have e1: "eventsOnBranch (?h1 k) \<noteq> []" using e ni by simp
  have A: "nodeEvent (propagate (propagate ?h i l) i r k) = nodeEvent (?h k) \<and>
         (\<forall>d \<in> set (nodeIds kl) \<union> set (nodeIds kr). propagate (propagate ?h i l) i r d = ?h d)"
    using propagate2_shielded [where h = "?h", OF d k e] .
  have B: "nodeEvent (propagate (propagate ?h1 i l) i r k) = nodeEvent (?h k) \<and>
         (\<forall>d \<in> set (nodeIds kl) \<union> set (nodeIds kr). propagate (propagate ?h1 i l) i r d = ?h d)"
    using propagate2_shielded [where h = "?h1", OF d k e1] ni by auto
  have C: "nodeEvent (?h1 k) = nodeEvent (?h k) \<and>
         (\<forall>d \<in> set (nodeIds kl) \<union> set (nodeIds kr). ?h1 d = ?h d)"
    using ni by auto
  show ?thesis
  proof (cases "x = rootEvent m")
    case True
    then show ?thesis using rt A by (simp add: forwardSetSpec_def)
  next
    case False
    then show ?thesis using f A B C by (simp add: forwardSetSpec_def Let_def)
  qed
qed

lemma findNode_Node: "findNode t i = Node a b c \<Longrightarrow> a = i \<and> Node a b c \<in> set (subtrees t)"
  by (induction t) (auto split: if_splits node.splits)

text \<open>C3: on a tree whose nodes are tips or have both descendants, \<open>forwardSetBranchHistories\<close>
  does what the specification's algorithm says (\<open>forwardSetSpec\<close>): from the Root Event
  (attached to the root, which has descendants) it descends into both children of the
  root; from the most-tipward event of its branch it sets the node's \<open>nodeEvent\<close> and
  descends into both children, if any; from an event that is not the most-tipward of its
  branch it changes nothing. The recursion at a node \<open>p\<close> with parent \<open>a\<close> is the descent
  \<open>propagate\<close>: \<open>ancestralNodeEvent\<close> becomes the parent's \<open>nodeEvent\<close>, and on an empty
  history so does \<open>nodeEvent\<close> and the descent goes on into the children.\<close>

theorem forwardSetBranchHistories_as_specified:
  assumes "distinct (nodeIds (root (theTree m)))"
    and "binary (root (theTree m))"
    and "eventNode (events m x) \<in> set (nodeIds (root (theTree m)))"
    and "x = rootEvent m \<longrightarrow>
           isNode (root (theTree m)) (eventNode (events m x)) \<and>
           getLfDesc (root (theTree m)) \<noteq> NULL"
  shows "forwardSetBranchHistories m (Some x) = Inr (m\<lparr>histories := forwardSetSpec m x\<rparr>) \<and>
         (x \<noteq> rootEvent m \<and> getLastEvent (histories m (eventNode (events m x))) \<noteq> Some x \<longrightarrow>
            forwardSetBranchHistories m (Some x) = Inr m) \<and>
         (\<forall>a l r. Node a l r \<in> set (subtrees (root (theTree m))) \<longrightarrow>
            (l \<noteq> NULL \<longrightarrow> forwardSetHistoriesRecursive m l =
               Inr (m\<lparr>histories := propagate (histories m) a l\<rparr>)) \<and>
            (r \<noteq> NULL \<longrightarrow> forwardSetHistoriesRecursive m r =
               Inr (m\<lparr>histories := propagate (histories m) a r\<rparr>)))"
proof -
  have 1: "forwardSetBranchHistories m (Some x) = Inr (m\<lparr>histories := forwardSetSpec m x\<rparr>)"
    using fSBH_spec [OF assms] .
  obtain l r where f: "findNode (root (theTree m)) (eventNode (events m x)) =
      Node (eventNode (events m x)) l r"
    using findNode_subtree [OF assms(3)] by blast
  have 2: "forwardSetBranchHistories m (Some x) = Inr m"
    if "x \<noteq> rootEvent m" "getLastEvent (histories m (eventNode (events m x))) \<noteq> Some x"
    using that f by (auto simp: eq_commute [of "Some x"])
  have 3: "(l \<noteq> NULL \<longrightarrow> forwardSetHistoriesRecursive m l =
               Inr (m\<lparr>histories := propagate (histories m) a l\<rparr>)) \<and>
            (r \<noteq> NULL \<longrightarrow> forwardSetHistoriesRecursive m r =
               Inr (m\<lparr>histories := propagate (histories m) a r\<rparr>))"
    if "Node a l r \<in> set (subtrees (root (theTree m)))" for a l r
    using parentsAgree_children [OF assms(1) that] fSHR_propagate [OF _ refl] by blast
  show ?thesis using 1 2 3 by blast
qed

theorem forwardSetBranchHistories_as_specified_witness:
  "distinct (nodeIds (root (theTree exAdded))) \<and> binary (root (theTree exAdded)) \<and>
   eventNode (events exAdded 1) \<in> set (nodeIds (root (theTree exAdded))) \<and>
   1 \<noteq> rootEvent exAdded \<and>
   forwardSetBranchHistories exAdded (Some 1) = Inr (exAdded\<lparr>histories := forwardSetSpec exAdded 1\<rparr>) \<and>
   map (\<lambda>i. nodeEvent (forwardSetSpec exAdded 1 i)) [0, 1, 2, 3, 4, 5, 6] =
     [Some 0, Some 1, Some 1, Some 1, Some 0, Some 0, Some 0]"
  using forwardSetBranchHistories_as_specified [of exAdded 1]
  by (simp add: ex_defs forwardSetSpec_def getLastEvent_def Let_def)

section \<open>Properties: what forward-setting leaves alone\<close>

lemma cachesOnly_refl: "cachesOnly m m"
  unfolding cachesOnly_def by (rule exI [of _ "histories m"]) simp

lemma cachesOnly_trans: "cachesOnly m m1 \<Longrightarrow> cachesOnly m1 m2 \<Longrightarrow> cachesOnly m m2"
  unfolding cachesOnly_def by auto

lemma cachesOnly_setNodeEvent: "cachesOnly m (setNodeEvent i e m)"
  unfolding cachesOnly_def setNodeEvent_def
  by (rule exI [of _ "(histories m)(i := (histories m i)\<lparr>nodeEvent := e\<rparr>)"]) simp

lemma cachesOnly_setAncestralNodeEvent: "cachesOnly m (setAncestralNodeEvent i e m)"
  unfolding cachesOnly_def setAncestralNodeEvent_def
  by (rule exI [of _ "(histories m)(i := (histories m i)\<lparr>ancestralNodeEvent := e\<rparr>)"]) simp

lemma fSHR_cachesOnly:
  "forwardSetHistoriesRecursive m p = Inr m' \<Longrightarrow> cachesOnly m m'"
proof (induction p arbitrary: m m')
  case NULL
  then show ?case by simp
next
  case (Node i l r)
  obtain a where a: "getAnc (root (theTree m)) i = Some a"
    using Node.prems by (cases "getAnc (root (theTree m)) i") auto
  let ?v = "nodeEvent (histories m a)"
  let ?m1 = "setAncestralNodeEvent i ?v m"
  let ?m2 = "setNodeEvent i ?v ?m1"
  have m1: "cachesOnly m ?m1" by (rule cachesOnly_setAncestralNodeEvent)
  have m2: "cachesOnly m ?m2"
    using cachesOnly_trans [OF m1 cachesOnly_setNodeEvent] .
  show ?case
  proof (cases "getNumberOfBranchEvents (histories ?m1 i) = 0")
    case False
    then have "m' = ?m1" using Node.prems a by (simp add: Let_def)
    then show ?thesis using m1 by simp
  next
    case True
    have E: "(case (if l \<noteq> NULL then forwardSetHistoriesRecursive ?m2 l else Inr ?m2) of
               Inl e \<Rightarrow> Inl e
             | Inr m3 \<Rightarrow> (if r \<noteq> NULL then forwardSetHistoriesRecursive m3 r else Inr m3)) = Inr m'"
      using Node.prems a True by (simp add: Let_def)
    obtain m3 where m3: "(if l \<noteq> NULL then forwardSetHistoriesRecursive ?m2 l else Inr ?m2) = Inr m3"
      using E by (cases "if l \<noteq> NULL then forwardSetHistoriesRecursive ?m2 l else Inr ?m2") auto
    have m': "(if r \<noteq> NULL then forwardSetHistoriesRecursive m3 r else Inr m3) = Inr m'"
      using E m3 by simp
    have p3: "cachesOnly ?m2 m3"
      using m3 Node.IH(1) [of ?m2 m3] cachesOnly_refl by (cases "l = NULL") auto
    have p4: "cachesOnly m3 m'"
      using m' Node.IH(2) [of m3 m'] cachesOnly_refl by (cases "r = NULL") auto
    show ?thesis using cachesOnly_trans [OF m2 cachesOnly_trans [OF p3 p4]] .
  qed
qed

lemma fSHR_both_cachesOnly:
  assumes H: "(case forwardSetHistoriesRecursive m0 l of Inl e \<Rightarrow> Inl e
         | Inr m1 \<Rightarrow> forwardSetHistoriesRecursive m1 r) = Inr m''"
  shows "cachesOnly m0 m''"
proof -
  obtain ma where a: "forwardSetHistoriesRecursive m0 l = Inr ma"
    using H by (cases "forwardSetHistoriesRecursive m0 l") auto
  have b: "forwardSetHistoriesRecursive ma r = Inr m''" using H a by simp
  show ?thesis using cachesOnly_trans [OF fSHR_cachesOnly [OF a] fSHR_cachesOnly [OF b]] .
qed

lemma fSBH_cachesOnly:
  assumes "forwardSetBranchHistories m x = Inr m'"
  shows "cachesOnly m m'"
proof -
  obtain e where x: "x = Some e" using assms by (cases x) auto
  obtain i l r where f: "findNode (root (theTree m)) (eventNode (events m e)) = Node i l r"
    using assms x by (cases "findNode (root (theTree m)) (eventNode (events m e))") auto
  let ?m1 = "setNodeEvent i (Some e) m"
  have m1: "cachesOnly m ?m1" by (rule cachesOnly_setNodeEvent)
  consider (root) "e = rootEvent m"
    | (last) "e \<noteq> rootEvent m" "getLastEvent (histories m i) = Some e" "l \<noteq> NULL \<and> r \<noteq> NULL"
    | (tip) "e \<noteq> rootEvent m" "getLastEvent (histories m i) = Some e" "\<not> (l \<noteq> NULL \<and> r \<noteq> NULL)"
    | (none) "e \<noteq> rootEvent m" "getLastEvent (histories m i) \<noteq> Some e"
    by blast
  then show ?thesis
  proof cases
    case root
    then show ?thesis using assms x f fSHR_both_cachesOnly [where ?m0.0 = m and l = l and r = r] by simp
  next
    case last
    then have "(case forwardSetHistoriesRecursive ?m1 l of Inl e \<Rightarrow> Inl e
         | Inr m1 \<Rightarrow> forwardSetHistoriesRecursive m1 r) = Inr m'"
      using assms x f by (simp add: Let_def eq_commute [of "Some e"])
    from cachesOnly_trans [OF m1 fSHR_both_cachesOnly [OF this]] show ?thesis .
  next
    case tip
    then have "m' = ?m1" using assms x f by (auto simp: Let_def eq_commute [of "Some e"])
    then show ?thesis using m1 by simp
  next
    case none
    then have "m' = m" using assms x f by (simp add: eq_commute [of "Some e"])
    then show ?thesis using cachesOnly_refl by simp
  qed
qed

lemma cachesOnly_fields:
  assumes "cachesOnly m m'"
  shows "events m' = events m" "scale m' = scale m" "rngPos m' = rngPos m"
    "eventCollection m' = eventCollection m" "theTree m' = theTree m"
    "lastEventModified m' = lastEventModified m" "rootEvent m' = rootEvent m"
    "nextEvent m' = nextEvent m" "computeMeanBranch m' = computeMeanBranch m"
    "eventsOnBranch (histories m' j) = eventsOnBranch (histories m j)"
  using assms unfolding cachesOnly_def by auto

section \<open>Properties: the local move\<close>

lemma cachesOnly_more:
  assumes "cachesOnly m m'"
  shows "meanBranch m' = meanBranch m" "readParameters m' = readParameters m"
    "rngDraws m' = rngDraws m" "randomParameters m' = randomParameters m"
  using assms unfolding cachesOnly_def by auto

lemma movedLocal_fields:
  "mapTime (events (movedLocal e m1) e) =
     mapTime (events m1 e) + rd (rngDraws m1 (rngPos m1) * scale m1 - rd (0.5 * scale m1))"
  "rngPos (movedLocal e m1) = Suc (rngPos m1)"
  "scale (movedLocal e m1) = scale m1"
  by (simp_all add: movedLocal_def op_defs)

lemma eventMove_local_unfold:
  assumes c: "chooseEventAtRandom m = Inr (e, m1)"
    and ok: "eventMove True m = Inr m'"
  shows "\<exists>prev m6 m7.
           forwardSetBranchHistories (movedLocal e m1) prev = Inr m6 \<and>
           forwardSetBranchHistories m6 (Some e) = Inr m7 \<and>
           m' = setMeanBranchParameters m7"
proof -
  have "e \<in> set (eventCollection m)" using choose_Inr [OF c] by simp
  then have n: "getNumberOfEvents m > 0" by (auto simp: getNumberOfEvents_def)
  obtain prev where p: "getLastEventBefore (histories m1 (eventNode (events m1 e))) e = Inr prev"
    using ok n c by (cases "getLastEventBefore (histories m1 (eventNode (events m1 e))) e")
      (auto simp: eventMove_def)
  have E: "(case forwardSetBranchHistories (movedLocal e m1) prev of
              Inl e \<Rightarrow> Inl e
            | Inr m6 \<Rightarrow> (case forwardSetBranchHistories m6 (Some e) of
                 Inl e \<Rightarrow> Inl e | Inr m7 \<Rightarrow> Inr (setMeanBranchParameters m7))) = Inr m'"
    using ok n c p by (simp add: eventMove_def movedLocal_def Let_def split: prod.splits)
  obtain m6 where m6: "forwardSetBranchHistories (movedLocal e m1) prev = Inr m6"
    using E by (cases "forwardSetBranchHistories (movedLocal e m1) prev") auto
  obtain m7 where m7: "forwardSetBranchHistories m6 (Some e) = Inr m7"
    using E m6 by (cases "forwardSetBranchHistories m6 (Some e)") auto
  have "m' = setMeanBranchParameters m7" using E m6 m7 by simp
  then show ?thesis using m6 m7 by blast
qed

text \<open>C9, as the code has it: a local move that returns has put the chosen event \<open>e\<close> at
  its old map position plus the step, which is \<open>U - 0.5 * scale\<close> computed in double (the
  product and the difference each rounded); \<open>U\<close> is the draw after the one that chose the
  event, scaled into \<open>[0, scale)\<close>. The move leaves \<open>scale\<close> as it is, and the constructor
  sets it to the double product of the configured factor and the tree's maximum root-to-tip
  length.\<close>

theorem eventMove_local_position:
  assumes "chooseEventAtRandom m = Inr (e, m1)"
    and "eventMove True m = Inr m'"
  shows "mapTime (events m' e) =
           mapTime (events m e) + rd (rngDraws m (Suc (rngPos m)) * scale m - rd (0.5 * scale m)) \<and>
         rngPos m' = rngPos m + 2 \<and> scale m' = scale m \<and>
         (0 \<le> rngDraws m (Suc (rngPos m)) \<and> rngDraws m (Suc (rngPos m)) < 1 \<and> 0 < scale m \<longrightarrow>
            0 \<le> rngDraws m (Suc (rngPos m)) * scale m \<and>
            rngDraws m (Suc (rngPos m)) * scale m < scale m) \<and>
         scale (Model st m) = rd (updateEventLocationScale st * maxRootToTipLength (theTree m))"
proof -
  have m1: "m1 = m\<lparr>rngPos := Suc (rngPos m)\<rparr>" using choose_Inr [OF assms(1)] by simp
  obtain prev m6 m7 where m6: "forwardSetBranchHistories (movedLocal e m1) prev = Inr m6"
    and m7: "forwardSetBranchHistories m6 (Some e) = Inr m7"
    and m': "m' = setMeanBranchParameters m7"
    using eventMove_local_unfold [OF assms] by blast
  note c6 = fSBH_cachesOnly [OF m6]
  note c7 = fSBH_cachesOnly [OF m7]
  have ev: "events m' = events (movedLocal e m1)"
    using m' cachesOnly_fields(1) [OF c6] cachesOnly_fields(1) [OF c7]
    by (simp add: setMeanBranchParameters_def)
  have rp: "rngPos m' = rngPos (movedLocal e m1)"
    using m' cachesOnly_fields(3) [OF c6] cachesOnly_fields(3) [OF c7]
    by (simp add: setMeanBranchParameters_def)
  have sc: "scale m' = scale (movedLocal e m1)"
    using m' cachesOnly_fields(2) [OF c6] cachesOnly_fields(2) [OF c7]
    by (simp add: setMeanBranchParameters_def)
  have 1: "mapTime (events m' e) = mapTime (events m e)
             + rd (rngDraws m (Suc (rngPos m)) * scale m - rd (0.5 * scale m))"
    using ev movedLocal_fields(1) [of e m1] by (simp add: m1)
  have 2: "rngPos m' = rngPos m + 2" using rp movedLocal_fields(2) [of e m1] by (simp add: m1)
  have 3: "scale m' = scale m" using sc movedLocal_fields(3) [of e m1] by (simp add: m1)
  have 4: "0 \<le> rngDraws m (Suc (rngPos m)) * scale m \<and>
            rngDraws m (Suc (rngPos m)) * scale m < scale m"
    if "0 \<le> rngDraws m (Suc (rngPos m))" "rngDraws m (Suc (rngPos m)) < 1" "0 < scale m"
    using that by simp
  have 5: "scale (Model st m) = rd (updateEventLocationScale st * maxRootToTipLength (theTree m))"
    by (simp add: Model_def)
  show ?thesis using 1 2 3 4 5 by blast
qed

lemma exOne_choose: "chooseEventAtRandom exOne = Inr (1, exOne\<lparr>rngPos := Suc (rngPos exOne)\<rparr>)"
proof -
  have 1: "0 \<le> rngDraws exOne (rngPos exOne)" "rngDraws exOne (rngPos exOne) < 1"
    "isDouble (rngDraws exOne (rngPos exOne))"
    "rd (rngDraws exOne (rngPos exOne) * real (length (eventCollection exOne))) = 1 / 4"
    by code_simp+
  have 2: "eventCollection exOne \<noteq> []" "length (eventCollection exOne) < 2 ^ 31"
    by (simp_all add: ex_defs)
  have 3: "eventCollection exOne ! nat \<lfloor>1 / 4 :: real\<rfloor> = 1" by (simp add: ex_defs)
  show ?thesis using choose_nonempty [OF 1(1,2,3) 2] 1(4) 3 by simp
qed

theorem eventMove_local_position_witness:
  "chooseEventAtRandom exOne = Inr (1, exOne\<lparr>rngPos := Suc (rngPos exOne)\<rparr>) \<and>
   \<not> isl (eventMove True exOne) \<and>
   mapTime (events (projr (eventMove True exOne)) 1) = 3 / 4 \<and>
   mapTime (events exOne 1) +
     rd (rngDraws exOne (Suc (rngPos exOne)) * scale exOne - rd (0.5 * scale exOne)) = 3 / 4 \<and>
   scale (Model exSettings exOne) = 1"
proof -
  have nl: "\<not> isl (eventMove True exOne)" by code_simp
  then have ok: "eventMove True exOne = Inr (projr (eventMove True exOne))" by simp
  have c: "mapTime (events exOne 1) +
     rd (rngDraws exOne (Suc (rngPos exOne)) * scale exOne - rd (0.5 * scale exOne)) = 3 / 4"
    by code_simp
  have s: "rd (updateEventLocationScale exSettings * maxRootToTipLength (theTree exOne)) = 1"
    by code_simp
  show ?thesis
    using eventMove_local_position [OF exOne_choose ok, of exSettings] exOne_choose nl c s by simp
qed

text \<open>With a second draw of \<open>2 ^ -60\<close> and \<open>scale = 1\<close> the step is \<open>- 1/2\<close>, not
  \<open>2 ^ -60 - 1/2\<close>, and the event at \<open>1/2\<close> goes to \<open>0\<close>; and for the factor 0.1 and the
  length 3 the constructor's scale is not the product of the two.\<close>

theorem eventMove_local_position_counterexample:
  "map_sum id fst (chooseEventAtRandom exSmallDraw) = Inr 1 \<and>
   \<not> isl (eventMove True exSmallDraw) \<and>
   mapTime (events exSmallDraw 1) = 1 / 2 \<and> scale exSmallDraw = 1 \<and>
   rngDraws exSmallDraw (Suc (rngPos exSmallDraw)) = 1 / 2 ^ 60 \<and>
   mapTime (events (projr (eventMove True exSmallDraw)) 1) = 0 \<and>
   isDouble (updateEventLocationScale exJitter) \<and> maxRootToTipLength (theTree exLong) = 3 \<and>
   scale (Model exJitter exLong) \<noteq>
     updateEventLocationScale exJitter * maxRootToTipLength (theTree exLong)"
proof -
  have 1: "map_sum id fst (chooseEventAtRandom exSmallDraw) = Inr 1" by code_simp
  have 2: "\<not> isl (eventMove True exSmallDraw)" by code_simp
  have 3: "mapTime (events exSmallDraw 1) = 1 / 2" "scale exSmallDraw = 1"
    "rngDraws exSmallDraw (Suc (rngPos exSmallDraw)) = 1 / 2 ^ 60"
    by (simp_all add: exSmallDraw_def ex_defs)
  have 4: "mapTime (events (projr (eventMove True exSmallDraw)) 1) = 0" by code_simp
  have 5: "isDouble (updateEventLocationScale exJitter)" by code_simp
  have 6: "maxRootToTipLength (theTree exLong) = 3" by (simp add: exLong_def)
  have 7: "scale (Model exJitter exLong) \<noteq>
     updateEventLocationScale exJitter * maxRootToTipLength (theTree exLong)" by code_simp
  show ?thesis using 1 2 3 4 5 6 7 by simp
qed

section \<open>Properties: one record of the initializer\<close>

lemma set_insertEvent: "set (insertEvent pos e xs) = insert e (set xs)"
  by (induction xs) auto

lemma set_insertCollection: "set (insertCollection e xs) = insert e (set xs)"
  by (auto simp: insertCollection_def set_insort_key)

lemma initializeRecord_root:
  assumes "resolveNode (theTree m) species1 species2 = Inr x" "isNode (root (theTree m)) x"
  shows "initializeRecord species1 species2 eTime ps m =
         Inr (m\<lparr>readParameters := ps,
                events := (events m)(rootEvent m := (events m (rootEvent m))\<lparr>eventParams := ps\<rparr>)\<rparr>)"
  using assms by (simp add: initializeRecord_def setRootEventWithReadParameters_def)

lemma initializeRecord_insert:
  assumes "resolveNode (theTree m) species1 species2 = Inr x" "\<not> isNode (root (theTree m)) x"
  shows "initializeRecord species1 species2 eTime ps m =
         (case forwardSetBranchHistories
                 (insertedRecord x (rd (mapStart (theTree m) x + rd (time (theTree m) x - eTime))) ps m)
                 (Some (nextEvent m)) of
            Inl e \<Rightarrow> Inl (Propagation e)
          | Inr m4 \<Rightarrow> Inr (setMeanBranchParameters m4))"
  using assms
  by (simp add: initializeRecord_def insertedRecord_def newBranchEventWithReadParameters_def
      newBranchEvent_def addEventToBranchHistory_def Let_def
      del: forwardSetBranchHistories.simps)

lemma insertedRecord_fields:
  "events (insertedRecord x t ps m) (nextEvent m) =
     \<lparr>eventNode = x, mapTime = t, oldEventNode = x, oldMapTime = t, eventParams = ps\<rparr>"
  "nextEvent m \<in> set (eventsOnBranch (histories (insertedRecord x t ps m) x))"
  "nextEvent m \<in> set (eventCollection (insertedRecord x t ps m))"
  by (simp_all add: insertedRecord_def Let_def set_insertEvent set_insertCollection)

section \<open>Properties: the invariant of the cached references\<close>

lemma zone_ids: "zone h p \<subseteq> set (nodeIds p)"
  by (induction p) auto

lemma visited_ids: "visited h p \<subseteq> set (nodeIds p)"
  by (induction p) auto

lemma zone_visited: "zone h p \<subseteq> visited h p"
  by (induction p) auto

lemma zone_cong:
  "(\<And>j. j \<in> set (nodeIds p) \<Longrightarrow> eventsOnBranch (h j) = eventsOnBranch (h' j)) \<Longrightarrow> zone h p = zone h' p"
  by (induction p) auto

lemma cachesAgree_cong:
  "(\<And>j. j \<in> set (nodeIds p) \<Longrightarrow> h j = h' j) \<Longrightarrow>
   (\<And>j. j \<in> set (nodeIds p) \<Longrightarrow> (j \<in> Y) = (j \<in> Y')) \<Longrightarrow>
   cachesAgree Y h v p = cachesAgree Y' h' v p"
proof (induction p arbitrary: v)
  case NULL
  then show ?case by simp
next
  case (Node i l r)
  have i: "h i = h' i" "(i \<in> Y) = (i \<in> Y')" using Node.prems by simp_all
  have l: "cachesAgree Y h (nodeEvent (h i)) l = cachesAgree Y' h' (nodeEvent (h i)) l"
    using Node.IH(1) Node.prems by simp
  have r: "cachesAgree Y h (nodeEvent (h i)) r = cachesAgree Y' h' (nodeEvent (h i)) r"
    using Node.IH(2) Node.prems by simp
  show ?case using i l r by simp
qed

lemma cachesAgree_upd:
  "i \<notin> set (nodeIds p) \<Longrightarrow> cachesAgree Y (h(i := x)) v p = cachesAgree Y h v p"
  by (rule cachesAgree_cong) auto

lemma cachesAgree_eq_on:
  "(\<And>j. j \<in> set (nodeIds p) \<Longrightarrow> h' j = h j) \<Longrightarrow> cachesAgree Y h' v p = cachesAgree Y h v p"
  by (rule cachesAgree_cong) auto

lemma cachesAgree_Y:
  "(\<And>j. j \<in> set (nodeIds p) \<Longrightarrow> (j \<in> Y) = (j \<in> Y')) \<Longrightarrow>
   cachesAgree Y h v p = cachesAgree Y' h v p"
  by (rule cachesAgree_cong) auto

lemma propagate_nodeEvent:
  "j \<notin> zone h p \<Longrightarrow> nodeEvent (propagate h a p j) = nodeEvent (h j)"
proof (induction p arbitrary: h a)
  case NULL
  then show ?case by simp
next
  case (Node i l r)
  let ?v = "nodeEvent (h a)"
  let ?h1 = "h(i := (h i)\<lparr>ancestralNodeEvent := ?v\<rparr>)"
  let ?h2 = "h(i := (h i)\<lparr>ancestralNodeEvent := ?v, nodeEvent := ?v\<rparr>)"
  show ?case
  proof (cases "eventsOnBranch (h i) = []")
    case False
    then show ?thesis by (simp add: Let_def)
  next
    case True
    have ji: "j \<noteq> i" and jl: "j \<notin> zone h l" and jr: "j \<notin> zone h r"
      using Node.prems True by auto
    have zl: "zone ?h2 l = zone h l" by (rule zone_cong) simp
    have zr: "zone (propagate ?h2 i l) r = zone h r"
      by (rule zone_cong) (simp add: propagate_events)
    have jr': "j \<notin> zone (propagate ?h2 i l) r" using jr zr by simp
    have jl': "j \<notin> zone ?h2 l" using jl zl by simp
    have "nodeEvent (propagate (propagate ?h2 i l) i r j) = nodeEvent (propagate ?h2 i l j)"
      using jr' by (rule Node.IH(2))
    also have "\<dots> = nodeEvent (?h2 j)"
      using jl' by (rule Node.IH(1))
    also have "\<dots> = nodeEvent (h j)" using ji by simp
    finally show ?thesis using True by (simp add: Let_def)
  qed
qed

lemma propagate_cachesAgree:
  "distinct (nodeIds p) \<Longrightarrow> a \<notin> set (nodeIds p) \<Longrightarrow> cachesAgree Y h v0 p \<Longrightarrow>
   cachesAgree (Y - zone h p) (propagate h a p) (nodeEvent (h a)) p"
proof (induction p arbitrary: h a v0)
  case NULL
  then show ?case by simp
next
  case (Node i l r)
  let ?v = "nodeEvent (h a)"
  let ?h1 = "h(i := (h i)\<lparr>ancestralNodeEvent := ?v\<rparr>)"
  let ?h2 = "h(i := (h i)\<lparr>ancestralNodeEvent := ?v, nodeEvent := ?v\<rparr>)"
  have ai: "a \<noteq> i" using Node.prems(2) by simp
  have il: "i \<notin> set (nodeIds l)" and ir: "i \<notin> set (nodeIds r)"
    and dl: "distinct (nodeIds l)" and dr: "distinct (nodeIds r)"
    and lr: "set (nodeIds l) \<inter> set (nodeIds r) = {}"
    using Node.prems(1) by auto
  have cl: "cachesAgree Y h (nodeEvent (h i)) l" and cr: "cachesAgree Y h (nodeEvent (h i)) r"
    and self: "i \<notin> Y \<longrightarrow> nodeEvent (h i) =
         (if eventsOnBranch (h i) = [] then v0 else Some (last (eventsOnBranch (h i))))"
    using Node.prems(3) by simp_all
  show ?case
  proof (cases "eventsOnBranch (h i) = []")
    case False
    have res: "propagate h a (Node i l r) = ?h1" using False by (simp add: Let_def)
    have z0: "zone h (Node i l r) = {}" using False by simp
    have ne: "nodeEvent (?h1 i) = nodeEvent (h i)" by simp
    have "cachesAgree (Y - {}) ?h1 (nodeEvent (h i)) l = cachesAgree Y h (nodeEvent (h i)) l"
      by (rule cachesAgree_cong) (use il in auto)
    then have C: "cachesAgree (Y - {}) ?h1 (nodeEvent (?h1 i)) l" using cl ne by simp
    have "cachesAgree (Y - {}) ?h1 (nodeEvent (h i)) r = cachesAgree Y h (nodeEvent (h i)) r"
      by (rule cachesAgree_cong) (use ir in auto)
    then have D: "cachesAgree (Y - {}) ?h1 (nodeEvent (?h1 i)) r" using cr ne by simp
    have A: "ancestralNodeEvent (?h1 i) = ?v" by simp
    have B: "i \<notin> Y - {} \<longrightarrow> nodeEvent (?h1 i) =
        (if eventsOnBranch (?h1 i) = [] then ?v else Some (last (eventsOnBranch (?h1 i))))"
      using self False by simp
    show ?thesis unfolding res z0 cachesAgree.simps(2) using A B C D by blast
  next
    case True
    let ?h3 = "propagate ?h2 i l"
    let ?h4 = "propagate ?h3 i r"
    have res: "propagate h a (Node i l r) = ?h4" using True by (simp add: Let_def)
    have z: "zone h (Node i l r) = insert i (zone h l \<union> zone h r)" using True by simp
    have c2l: "cachesAgree Y ?h2 (nodeEvent (h i)) l"
      using cl cachesAgree_upd [OF il] by simp
    have p3: "cachesAgree (Y - zone ?h2 l) ?h3 (nodeEvent (?h2 i)) l"
      using Node.IH(1) [OF dl il c2l] .
    have zl: "zone ?h2 l = zone h l" by (rule zone_cong) simp
    have h3r: "\<And>j. j \<in> set (nodeIds r) \<Longrightarrow> ?h3 j = h j"
    proof -
      fix j assume j: "j \<in> set (nodeIds r)"
      then have "j \<notin> set (nodeIds l)" using lr by auto
      then have "?h3 j = ?h2 j" by (rule propagate_frame)
      then show "?h3 j = h j" using j ir by auto
    qed
    have c3r: "cachesAgree Y ?h3 (nodeEvent (h i)) r"
      using cr cachesAgree_eq_on [of r ?h3 h] h3r by simp
    have p4: "cachesAgree (Y - zone ?h3 r) ?h4 (nodeEvent (?h3 i)) r"
      using Node.IH(2) [OF dr ir c3r] .
    have zr: "zone ?h3 r = zone h r"
      by (rule zone_cong) (simp add: propagate_events)
    have h3i: "?h3 i = ?h2 i" using il by (rule propagate_frame)
    have h4i: "?h4 i = ?h2 i" using ir h3i propagate_frame [of i r ?h3 i] by simp
    have v2: "nodeEvent (?h2 i) = ?v" by simp
    have h4l: "\<And>j. j \<in> set (nodeIds l) \<Longrightarrow> ?h4 j = ?h3 j"
    proof -
      fix j assume "j \<in> set (nodeIds l)"
      then have "j \<notin> set (nodeIds r)" using lr by auto
      then show "?h4 j = ?h3 j" by (rule propagate_frame)
    qed
    let ?Z = "insert i (zone h l \<union> zone h r)"
    have fl: "cachesAgree (Y - ?Z) ?h4 ?v l"
    proof -
      have "cachesAgree (Y - ?Z) ?h4 ?v l = cachesAgree (Y - zone h l) ?h3 ?v l"
      proof (rule cachesAgree_cong)
        fix j assume "j \<in> set (nodeIds l)" then show "?h4 j = ?h3 j" by (rule h4l)
      next
        fix j assume j: "j \<in> set (nodeIds l)"
        then have "j \<noteq> i" "j \<notin> zone h r" using il lr zone_ids [of h r] by auto
        then show "(j \<in> Y - ?Z) = (j \<in> Y - zone h l)" by auto
      qed
      then show ?thesis using p3 zl v2 by simp
    qed
    have fr: "cachesAgree (Y - ?Z) ?h4 ?v r"
    proof -
      have "cachesAgree (Y - ?Z) ?h4 ?v r = cachesAgree (Y - zone h r) ?h4 ?v r"
      proof (rule cachesAgree_cong)
        fix j assume "j \<in> set (nodeIds r)" show "?h4 j = ?h4 j" by simp
      next
        fix j assume j: "j \<in> set (nodeIds r)"
        then have "j \<noteq> i" "j \<notin> zone h l" using ir lr zone_ids [of h l] by auto
        then show "(j \<in> Y - ?Z) = (j \<in> Y - zone h r)" by auto
      qed
      then show ?thesis using p4 zr h3i v2 by simp
    qed
    have A: "ancestralNodeEvent (?h4 i) = ?v" using h4i by simp
    have B: "i \<notin> Y - ?Z \<longrightarrow> nodeEvent (?h4 i) =
        (if eventsOnBranch (?h4 i) = [] then ?v else Some (last (eventsOnBranch (?h4 i))))"
      using h4i True by simp
    have ne: "nodeEvent (?h4 i) = ?v" using h4i by simp
    have C: "cachesAgree (Y - ?Z) ?h4 (nodeEvent (?h4 i)) l" using fl ne by simp
    have D: "cachesAgree (Y - ?Z) ?h4 (nodeEvent (?h4 i)) r" using fr ne by simp
    show ?thesis unfolding res z cachesAgree.simps(2) using A B C D by blast
  qed
qed

lemma propagate2_cachesAgree:
  assumes d: "distinct (nodeIds (Node i l r))"
    and cl: "cachesAgree Y h vl l" and cr: "cachesAgree Y h vr r"
  shows "cachesAgree (Y - (zone h l \<union> zone h r)) (propagate (propagate h i l) i r) (nodeEvent (h i)) l"
    and "cachesAgree (Y - (zone h l \<union> zone h r)) (propagate (propagate h i l) i r) (nodeEvent (h i)) r"
    and "propagate (propagate h i l) i r i = h i"
proof -
  let ?h3 = "propagate h i l"
  let ?h4 = "propagate ?h3 i r"
  have il: "i \<notin> set (nodeIds l)" and ir: "i \<notin> set (nodeIds r)"
    and dl: "distinct (nodeIds l)" and dr: "distinct (nodeIds r)"
    and lr: "set (nodeIds l) \<inter> set (nodeIds r) = {}"
    using d by auto
  have p3: "cachesAgree (Y - zone h l) ?h3 (nodeEvent (h i)) l"
    using propagate_cachesAgree [OF dl il cl] .
  have h3i: "?h3 i = h i" using il by (rule propagate_frame)
  have h3r: "\<And>j. j \<in> set (nodeIds r) \<Longrightarrow> ?h3 j = h j"
    using lr propagate_frame [of _ l h i] by auto
  have c3r: "cachesAgree Y ?h3 vr r" using cr cachesAgree_eq_on [of r ?h3 h] h3r by simp
  have p4: "cachesAgree (Y - zone ?h3 r) ?h4 (nodeEvent (?h3 i)) r"
    using propagate_cachesAgree [OF dr ir c3r] .
  have zr: "zone ?h3 r = zone h r" by (rule zone_cong) (simp add: propagate_events)
  have h4l: "\<And>j. j \<in> set (nodeIds l) \<Longrightarrow> ?h4 j = ?h3 j"
    using lr propagate_frame [of _ r ?h3 i] by auto
  show "?h4 i = h i" using h3i ir propagate_frame [of i r ?h3 i] by simp
  have "cachesAgree (Y - (zone h l \<union> zone h r)) ?h4 (nodeEvent (h i)) l =
        cachesAgree (Y - zone h l) ?h3 (nodeEvent (h i)) l"
  proof (rule cachesAgree_cong)
    fix j assume "j \<in> set (nodeIds l)" then show "?h4 j = ?h3 j" by (rule h4l)
  next
    fix j assume "j \<in> set (nodeIds l)"
    then have "j \<notin> zone h r" using lr zone_ids [of h r] by auto
    then show "(j \<in> Y - (zone h l \<union> zone h r)) = (j \<in> Y - zone h l)" by auto
  qed
  then show "cachesAgree (Y - (zone h l \<union> zone h r)) ?h4 (nodeEvent (h i)) l" using p3 by simp
  have "cachesAgree (Y - (zone h l \<union> zone h r)) ?h4 (nodeEvent (h i)) r =
        cachesAgree (Y - zone h r) ?h4 (nodeEvent (h i)) r"
  proof (rule cachesAgree_Y)
    fix j assume "j \<in> set (nodeIds r)"
    then have "j \<notin> zone h l" using lr zone_ids [of h l] by auto
    then show "(j \<in> Y - (zone h l \<union> zone h r)) = (j \<in> Y - zone h r)" by auto
  qed
  then show "cachesAgree (Y - (zone h l \<union> zone h r)) ?h4 (nodeEvent (h i)) r"
    using p4 zr h3i by simp
qed

lemma propagate2_nodeEvent:
  assumes "j \<notin> zone h l" "j \<notin> zone h r"
  shows "nodeEvent (propagate (propagate h i l) i r j) = nodeEvent (h j)"
proof -
  have zr: "zone (propagate h i l) r = zone h r" by (rule zone_cong) (simp add: propagate_events)
  have "nodeEvent (propagate (propagate h i l) i r j) = nodeEvent (propagate h i l j)"
    using assms(2) zr propagate_nodeEvent [of j "propagate h i l" r i] by simp
  then show ?thesis using propagate_nodeEvent [OF assms(1)] by simp
qed

text \<open>Forward-setting from the most-tipward event of node i, inside a tree p.\<close>

lemma forwardSet_cachesAgree:
  assumes "distinct (nodeIds p)" "Node i l r \<in> set (subtrees p)"
    and "eventsOnBranch (h i) \<noteq> []" "last (eventsOnBranch (h i)) = x"
    and "cachesAgree Y h v p"
    and h1: "h1 = h(i := (h i)\<lparr>nodeEvent := Some x\<rparr>)"
  shows "cachesAgree (Y - insert i (zone h l \<union> zone h r))
           (propagate (propagate h1 i l) i r) v p"
  using assms(1-5)
proof (induction p arbitrary: v)
  case NULL
  then show ?case by simp
next
  case (Node k pl pr)
  let ?h1 = "h1"
  let ?h' = "propagate (propagate ?h1 i l) i r"
  let ?Z = "insert i (zone h l \<union> zone h r)"
  have zl: "zone ?h1 l = zone h l" by (rule zone_cong) (simp add: h1)
  have zr: "zone ?h1 r = zone h r" by (rule zone_cong) (simp add: h1)
  have Zsub: "?Z \<subseteq> set (nodeIds (Node i l r))"
    using zone_ids [of h l] zone_ids [of h r] by auto
  have frame: "\<And>j. j \<notin> set (nodeIds (Node i l r)) \<Longrightarrow> ?h' j = h j"
    by (simp add: propagate_frame h1)
  have ck: "ancestralNodeEvent (h k) = v"
    and sk: "k \<notin> Y \<longrightarrow> nodeEvent (h k) =
         (if eventsOnBranch (h k) = [] then v else Some (last (eventsOnBranch (h k))))"
    and cl: "cachesAgree Y h (nodeEvent (h k)) pl" and cr: "cachesAgree Y h (nodeEvent (h k)) pr"
    using Node.prems(5) by simp_all
  have dl: "distinct (nodeIds pl)" and dr: "distinct (nodeIds pr)"
    and kl: "k \<notin> set (nodeIds pl)" and kr: "k \<notin> set (nodeIds pr)"
    and lr: "set (nodeIds pl) \<inter> set (nodeIds pr) = {}"
    using Node.prems(1) by auto
  show ?case
  proof (cases "Node i l r = Node k pl pr")
    case True
    then have eq: "k = i" "pl = l" "pr = r" by simp_all
    have d: "distinct (nodeIds (Node i l r))" using Node.prems(1) True by simp
    have il: "i \<notin> set (nodeIds l)" and ir: "i \<notin> set (nodeIds r)" using d by auto
    have c1l: "cachesAgree Y ?h1 (nodeEvent (h i)) l"
      using cl eq cachesAgree_upd [OF il] by (simp add: h1)
    have c1r: "cachesAgree Y ?h1 (nodeEvent (h i)) r"
      using cr eq cachesAgree_upd [OF ir] by (simp add: h1)
    note P = propagate2_cachesAgree [OF d c1l c1r]
    have hi: "?h' i = ?h1 i" using P(3) .
    have A: "ancestralNodeEvent (?h' i) = v" using hi ck eq by (simp add: h1)
    have B: "i \<notin> Y - ?Z \<longrightarrow> nodeEvent (?h' i) =
        (if eventsOnBranch (?h' i) = [] then v else Some (last (eventsOnBranch (?h' i))))"
      using hi Node.prems(3,4) by (simp add: h1)
    have ne: "nodeEvent (?h' i) = nodeEvent (?h1 i)" using hi by simp
    have "cachesAgree (Y - ?Z) ?h' (nodeEvent (?h1 i)) l =
          cachesAgree (Y - (zone ?h1 l \<union> zone ?h1 r)) ?h' (nodeEvent (?h1 i)) l"
      by (rule cachesAgree_Y) (use il zl zr in auto)
    then have C: "cachesAgree (Y - ?Z) ?h' (nodeEvent (?h' i)) l" using P(1) ne by simp
    have "cachesAgree (Y - ?Z) ?h' (nodeEvent (?h1 i)) r =
          cachesAgree (Y - (zone ?h1 l \<union> zone ?h1 r)) ?h' (nodeEvent (?h1 i)) r"
      by (rule cachesAgree_Y) (use ir zl zr in auto)
    then have D: "cachesAgree (Y - ?Z) ?h' (nodeEvent (?h' i)) r" using P(2) ne by simp
    show ?thesis unfolding eq cachesAgree.simps(2) using A B C D by blast
  next
    case False
    then consider (L) "Node i l r \<in> set (subtrees pl)" | (R) "Node i l r \<in> set (subtrees pr)"
      using Node.prems(2) by auto
    then show ?thesis
    proof cases
      case L
      have sub: "set (nodeIds (Node i l r)) \<subseteq> set (nodeIds pl)" using subtrees_ids [OF L] .
      have kout: "k \<notin> set (nodeIds (Node i l r))" using sub kl by blast
      have hk: "?h' k = h k" using frame [OF kout] .
      have kZ: "k \<notin> ?Z" using kout Zsub by blast
      have A: "ancestralNodeEvent (?h' k) = v" using hk ck by simp
      have B: "k \<notin> Y - ?Z \<longrightarrow> nodeEvent (?h' k) =
        (if eventsOnBranch (?h' k) = [] then v else Some (last (eventsOnBranch (?h' k))))"
        using hk sk kZ by simp
      have C: "cachesAgree (Y - ?Z) ?h' (nodeEvent (?h' k)) pl"
        using Node.IH(1) [OF dl L Node.prems(3,4) cl] hk by simp
      have "cachesAgree (Y - ?Z) ?h' (nodeEvent (h k)) pr = cachesAgree Y h (nodeEvent (h k)) pr"
      proof (rule cachesAgree_cong)
        fix j assume j: "j \<in> set (nodeIds pr)"
        then have "j \<notin> set (nodeIds (Node i l r))" using sub lr by blast
        then show "?h' j = h j" by (rule frame)
      next
        fix j assume j: "j \<in> set (nodeIds pr)"
        then have "j \<notin> ?Z" using sub lr Zsub by blast
        then show "(j \<in> Y - ?Z) = (j \<in> Y)" by simp
      qed
      then have D: "cachesAgree (Y - ?Z) ?h' (nodeEvent (?h' k)) pr" using cr hk by simp
      show ?thesis unfolding cachesAgree.simps(2) using A B C D by blast
    next
      case R
      have sub: "set (nodeIds (Node i l r)) \<subseteq> set (nodeIds pr)" using subtrees_ids [OF R] .
      have kout: "k \<notin> set (nodeIds (Node i l r))" using sub kr by blast
      have hk: "?h' k = h k" using frame [OF kout] .
      have kZ: "k \<notin> ?Z" using kout Zsub by blast
      have A: "ancestralNodeEvent (?h' k) = v" using hk ck by simp
      have B: "k \<notin> Y - ?Z \<longrightarrow> nodeEvent (?h' k) =
        (if eventsOnBranch (?h' k) = [] then v else Some (last (eventsOnBranch (?h' k))))"
        using hk sk kZ by simp
      have D: "cachesAgree (Y - ?Z) ?h' (nodeEvent (?h' k)) pr"
        using Node.IH(2) [OF dr R Node.prems(3,4) cr] hk by simp
      have "cachesAgree (Y - ?Z) ?h' (nodeEvent (h k)) pl = cachesAgree Y h (nodeEvent (h k)) pl"
      proof (rule cachesAgree_cong)
        fix j assume j: "j \<in> set (nodeIds pl)"
        then have "j \<notin> set (nodeIds (Node i l r))" using sub lr by blast
        then show "?h' j = h j" by (rule frame)
      next
        fix j assume j: "j \<in> set (nodeIds pl)"
        then have "j \<notin> ?Z" using sub lr Zsub by blast
        then show "(j \<in> Y - ?Z) = (j \<in> Y)" by simp
      qed
      then have C: "cachesAgree (Y - ?Z) ?h' (nodeEvent (?h' k)) pl" using cl hk by simp
      show ?thesis unfolding cachesAgree.simps(2) using A B C D by blast
    qed
  qed
qed

lemma cachesAgree_fixup:
  "cachesAgree Y h v p \<Longrightarrow>
   (\<And>j. j \<in> Y \<Longrightarrow> j \<in> set (nodeIds p) \<Longrightarrow>
      eventsOnBranch (h j) \<noteq> [] \<and> nodeEvent (h j) = Some (last (eventsOnBranch (h j)))) \<Longrightarrow>
   cachesAgree {} h v p"
  by (induction p arbitrary: v) auto

lemma cachesAgree_lists:
  "cachesAgree {} h v p \<Longrightarrow>
   (\<And>j. j \<in> set (nodeIds p) \<Longrightarrow> nodeEvent (h' j) = nodeEvent (h j) \<and>
        ancestralNodeEvent (h' j) = ancestralNodeEvent (h j)) \<Longrightarrow>
   (\<And>j. j \<in> set (nodeIds p) \<Longrightarrow> j \<notin> Y \<Longrightarrow> eventsOnBranch (h' j) = eventsOnBranch (h j)) \<Longrightarrow>
   cachesAgree Y h' v p"
  by (induction p arbitrary: v) auto

lemma cachesAgree_nonempty:
  "cachesAgree {} h v p \<Longrightarrow> j \<in> set (nodeIds p) \<Longrightarrow> eventsOnBranch (h j) \<noteq> [] \<Longrightarrow>
   nodeEvent (h j) = Some (last (eventsOnBranch (h j)))"
  by (induction p arbitrary: v) auto

lemma repairs_none: "repairs \<rho> tL tR h h {}"
  by (simp add: repairs_def)

lemma repairs_root:
  assumes d: "distinct (nodeIds (Node \<rho> tL tR))"
  shows "repairs \<rho> tL tR h (propagate (propagate h \<rho> tL) \<rho> tR) (zone h tL \<union> zone h tR)"
proof -
  let ?h' = "propagate (propagate h \<rho> tL) \<rho> tR"
  have r: "?h' \<rho> = h \<rho>" using d by (simp add: propagate_frame)
  have 1: "cachesAgreeRoot (Y - (zone h tL \<union> zone h tR)) ?h' \<rho> tL tR"
    if c: "cachesAgreeRoot Y h \<rho> tL tR" for Y
  proof -
    have cl: "cachesAgree Y h (nodeEvent (h \<rho>)) tL" and cr: "cachesAgree Y h (nodeEvent (h \<rho>)) tR"
      using c by (simp_all add: cachesAgreeRoot_def)
    show ?thesis
      using propagate2_cachesAgree(1) [OF d cl cr] propagate2_cachesAgree(2) [OF d cl cr] r
      by (simp add: cachesAgreeRoot_def)
  qed
  have 2: "nodeEvent (?h' j) = nodeEvent (h j)" if "j \<notin> zone h tL \<union> zone h tR" for j
    using that propagate2_nodeEvent [of j h tL tR \<rho>] by simp
  show ?thesis unfolding repairs_def using 1 2 r by (simp add: propagate_events)
qed

lemma repairs_node:
  assumes d: "distinct (nodeIds (Node \<rho> tL tR))"
    and s: "Node i l r \<in> set (subtrees tL) \<union> set (subtrees tR)"
    and ne: "eventsOnBranch (h i) \<noteq> []" and la: "last (eventsOnBranch (h i)) = x"
    and h1: "h1 = h(i := (h i)\<lparr>nodeEvent := Some x\<rparr>)"
  shows "repairs \<rho> tL tR h (propagate (propagate h1 i l) i r) (insert i (zone h l \<union> zone h r))"
proof -
  let ?h' = "propagate (propagate h1 i l) i r"
  let ?Z = "insert i (zone h l \<union> zone h r)"
  have dl: "distinct (nodeIds tL)" and dr: "distinct (nodeIds tR)"
    and rl: "\<rho> \<notin> set (nodeIds tL)" and rr: "\<rho> \<notin> set (nodeIds tR)"
    and lr: "set (nodeIds tL) \<inter> set (nodeIds tR) = {}"
    using d by auto
  have Zsub: "?Z \<subseteq> set (nodeIds (Node i l r))"
    using zone_ids [of h l] zone_ids [of h r] by auto
  have frame: "\<And>j. j \<notin> set (nodeIds (Node i l r)) \<Longrightarrow> ?h' j = h j"
    by (simp add: propagate_frame h1)
  have sub: "set (nodeIds (Node i l r)) \<subseteq> set (nodeIds tL) \<union> set (nodeIds tR)"
    using s subtrees_ids by blast
  have rho: "?h' \<rho> = h \<rho>" using frame sub rl rr by blast
  have zl: "zone h1 l = zone h l" by (rule zone_cong) (simp add: h1)
  have zr: "zone h1 r = zone h r" by (rule zone_cong) (simp add: h1)
  have ne2: "nodeEvent (?h' j) = nodeEvent (h j)" if "j \<notin> ?Z" for j
  proof -
    have "nodeEvent (?h' j) = nodeEvent (h1 j)"
      using that zl zr propagate2_nodeEvent [of j h1 l r i] by simp
    then show ?thesis using that by (simp add: h1)
  qed
  have ev: "eventsOnBranch (?h' j) = eventsOnBranch (h j)" for j
    by (simp add: propagate_events h1)
  have 1: "cachesAgreeRoot (Y - ?Z) ?h' \<rho> tL tR" if c: "cachesAgreeRoot Y h \<rho> tL tR" for Y
  proof -
    let ?v = "nodeEvent (h \<rho>)"
    have cl: "cachesAgree Y h ?v tL" and cr: "cachesAgree Y h ?v tR"
      using c by (simp_all add: cachesAgreeRoot_def)
    from s show ?thesis
    proof
      assume L: "Node i l r \<in> set (subtrees tL)"
      have subl: "set (nodeIds (Node i l r)) \<subseteq> set (nodeIds tL)" using subtrees_ids [OF L] .
      have A: "cachesAgree (Y - ?Z) ?h' ?v tL"
        using forwardSet_cachesAgree [OF dl L ne la cl h1] .
      have "cachesAgree (Y - ?Z) ?h' ?v tR = cachesAgree Y h ?v tR"
      proof (rule cachesAgree_cong)
        fix j assume "j \<in> set (nodeIds tR)"
        then have "j \<notin> set (nodeIds (Node i l r))" using subl lr by blast
        then show "?h' j = h j" by (rule frame)
      next
        fix j assume "j \<in> set (nodeIds tR)"
        then have "j \<notin> ?Z" using subl lr Zsub by blast
        then show "(j \<in> Y - ?Z) = (j \<in> Y)" by simp
      qed
      then show ?thesis using A cr rho by (simp add: cachesAgreeRoot_def)
    next
      assume R: "Node i l r \<in> set (subtrees tR)"
      have subr: "set (nodeIds (Node i l r)) \<subseteq> set (nodeIds tR)" using subtrees_ids [OF R] .
      have A: "cachesAgree (Y - ?Z) ?h' ?v tR"
        using forwardSet_cachesAgree [OF dr R ne la cr h1] .
      have "cachesAgree (Y - ?Z) ?h' ?v tL = cachesAgree Y h ?v tL"
      proof (rule cachesAgree_cong)
        fix j assume "j \<in> set (nodeIds tL)"
        then have "j \<notin> set (nodeIds (Node i l r))" using subr lr by blast
        then show "?h' j = h j" by (rule frame)
      next
        fix j assume "j \<in> set (nodeIds tL)"
        then have "j \<notin> ?Z" using subr lr Zsub by blast
        then show "(j \<in> Y - ?Z) = (j \<in> Y)" by simp
      qed
      then show ?thesis using A cl rho by (simp add: cachesAgreeRoot_def)
    qed
  qed
  show ?thesis unfolding repairs_def using 1 ne2 ev rho by blast
qed

text \<open>Where the reference inherited by a node comes from.\<close>

lemma provenance:
  "cachesAgree {} h v p \<Longrightarrow> n \<in> set (nodeIds p) \<Longrightarrow>
   (n \<in> visited h p \<and> ancestralNodeEvent (h n) = v) \<or>
   (\<exists>k kl kr. Node k kl kr \<in> set (subtrees p) \<and> eventsOnBranch (h k) \<noteq> [] \<and>
       n \<in> visited h kl \<union> visited h kr \<and>
       ancestralNodeEvent (h n) = Some (last (eventsOnBranch (h k))))"
proof (induction p arbitrary: v)
  case NULL
  then show ?case by simp
next
  case (Node i l r)
  let ?w = "nodeEvent (h i)"
  have all: "ancestralNodeEvent (h i) = v \<and>
      (i \<notin> {} \<longrightarrow> ?w = (if eventsOnBranch (h i) = [] then v else Some (last (eventsOnBranch (h i))))) \<and>
      cachesAgree {} h ?w l \<and> cachesAgree {} h ?w r"
    using Node.prems(1) unfolding cachesAgree.simps(2) .
  have cl: "cachesAgree {} h ?w l" and cr: "cachesAgree {} h ?w r"
    and w: "?w = (if eventsOnBranch (h i) = [] then v else Some (last (eventsOnBranch (h i))))"
    and a: "ancestralNodeEvent (h i) = v"
    using all by blast+
  show ?case
  proof (cases "n = i")
    case True
    then show ?thesis using a by simp
  next
    case False
    then consider (L) "n \<in> set (nodeIds l)" | (R) "n \<in> set (nodeIds r)"
      using Node.prems(2) by auto
    then have sub: "(n \<in> visited h l \<union> visited h r \<and> ancestralNodeEvent (h n) = ?w) \<or>
        (\<exists>k kl kr. Node k kl kr \<in> set (subtrees l) \<union> set (subtrees r) \<and>
           eventsOnBranch (h k) \<noteq> [] \<and> n \<in> visited h kl \<union> visited h kr \<and>
           ancestralNodeEvent (h n) = Some (last (eventsOnBranch (h k))))"
    proof cases
      case L
      from Node.IH(1) [OF cl L] show ?thesis by blast
    next
      case R
      from Node.IH(2) [OF cr R] show ?thesis by blast
    qed
    then show ?thesis
    proof
      assume A: "n \<in> visited h l \<union> visited h r \<and> ancestralNodeEvent (h n) = ?w"
      show ?thesis
      proof (cases "eventsOnBranch (h i) = []")
        case True
        then show ?thesis using A w by auto
      next
        case False
        have "Node i l r \<in> set (subtrees (Node i l r))" by simp
        then show ?thesis using A w False by metis
      qed
    next
      assume "\<exists>k kl kr. Node k kl kr \<in> set (subtrees l) \<union> set (subtrees r) \<and>
           eventsOnBranch (h k) \<noteq> [] \<and> n \<in> visited h kl \<union> visited h kr \<and>
           ancestralNodeEvent (h n) = Some (last (eventsOnBranch (h k)))"
      then show ?thesis by auto
    qed
  qed
qed

text \<open>A node that the descent reached before the lists changed is, once its own list is
  empty, reached by the descent after the change, or shielded by the one node that got
  its first event.\<close>

lemma chain:
  assumes "n \<in> visited h p" "eventsOnBranch (h' n) = []"
    and "\<And>k. eventsOnBranch (h k) = [] \<Longrightarrow> k \<noteq> n' \<Longrightarrow> eventsOnBranch (h' k) = []"
  shows "n \<in> zone h' p \<or>
         (\<exists>nl nr. Node n' nl nr \<in> set (subtrees p) \<and> eventsOnBranch (h n') = [] \<and>
            eventsOnBranch (h' n') \<noteq> [] \<and> n \<in> zone h' nl \<union> zone h' nr)"
  using assms(1)
proof (induction p)
  case NULL
  then show ?case by simp
next
  case (Node i l r)
  show ?case
  proof (cases "n = i")
    case True
    then show ?thesis using assms(2) by simp
  next
    case False
    then have e: "eventsOnBranch (h i) = []" and v: "n \<in> visited h l \<union> visited h r"
      using Node.prems by (auto split: if_splits)
    have sub: "n \<in> zone h' l \<union> zone h' r \<or>
         (\<exists>nl nr. Node n' nl nr \<in> set (subtrees l) \<union> set (subtrees r) \<and>
            eventsOnBranch (h n') = [] \<and> eventsOnBranch (h' n') \<noteq> [] \<and>
            n \<in> zone h' nl \<union> zone h' nr)"
      using v Node.IH by blast
    then show ?thesis
    proof
      assume z: "n \<in> zone h' l \<union> zone h' r"
      show ?thesis
      proof (cases "eventsOnBranch (h' i) = []")
        case True
        then show ?thesis using z by simp
      next
        case False
        then have "i = n'" using e assms(3) by blast
        then show ?thesis using z e False by auto
      qed
    next
      assume "\<exists>nl nr. Node n' nl nr \<in> set (subtrees l) \<union> set (subtrees r) \<and>
            eventsOnBranch (h n') = [] \<and> eventsOnBranch (h' n') \<noteq> [] \<and>
            n \<in> zone h' nl \<union> zone h' nr"
      then show ?thesis by auto
    qed
  qed
qed

lemma wfTree_Node:
  assumes "wfTree t"
  obtains i tL tR where "t = Node i tL tR" "nodeId t = i" "tL \<noteq> NULL" "tR \<noteq> NULL"
    "distinct (nodeIds (Node i tL tR))" "getLfDesc t = tL" "getRtDesc t = tR"
proof -
  obtain i tL tR where t: "t = Node i tL tR" using assms by (cases t) (auto simp: wfTree_def)
  have "tL \<noteq> NULL" using assms t by (simp add: wfTree_def)
  moreover have "tR \<noteq> NULL" using assms t calculation by (simp add: wfTree_def)
  ultimately show ?thesis using that [of i tL tR] t assms by (simp add: wfTree_def)
qed

lemma nonRoot_subtree:
  assumes d: "distinct (nodeIds (Node \<rho> tL tR))" and i: "i \<in> set (nodeIds tL) \<union> set (nodeIds tR)"
  obtains l r where "findNode (Node \<rho> tL tR) i = Node i l r"
    "Node i l r \<in> set (subtrees tL) \<union> set (subtrees tR)"
proof -
  have "i \<in> set (nodeIds (Node \<rho> tL tR))" using i by auto
  then obtain l r where f: "findNode (Node \<rho> tL tR) i = Node i l r"
    and s: "Node i l r \<in> set (subtrees (Node \<rho> tL tR))"
    using findNode_subtree by blast
  have "i \<noteq> \<rho>" using d i by auto
  then have "Node i l r \<in> set (subtrees tL) \<union> set (subtrees tR)" using s by auto
  then show ?thesis using that f by blast
qed

lemma forwardSet_repairs:
  assumes w: "wfTree (root (theTree m))"
    and re: "eventNode (events m (rootEvent m)) = nodeId (root (theTree m))"
    and x: "x = rootEvent m \<or> eventNode (events m x) \<in> set (nonRootIds (root (theTree m)))"
  shows "forwardSetBranchHistories m (Some x) = Inr (m\<lparr>histories := forwardSetSpec m x\<rparr>)"
    and "repairs (nodeId (root (theTree m))) (getLfDesc (root (theTree m)))
           (getRtDesc (root (theTree m))) (histories m) (forwardSetSpec m x) (forwardSetZone m x)"
proof -
  let ?T = "root (theTree m)"
  obtain \<rho> tL tR where T: "?T = Node \<rho> tL tR" and rho: "nodeId ?T = \<rho>"
    and nn: "tL \<noteq> NULL" "tR \<noteq> NULL"
    and d: "distinct (nodeIds (Node \<rho> tL tR))" and g: "getLfDesc ?T = tL" "getRtDesc ?T = tR"
    using wfTree_Node [OF w] by blast
  have dT: "distinct (nodeIds ?T)" and bT: "binary ?T" using w by (simp_all add: wfTree_def)
  have nin: "eventNode (events m x) \<in> set (nodeIds ?T)"
  proof (cases "x = rootEvent m")
    case True
    then show ?thesis using re T rho by simp
  next
    case False
    then have "eventNode (events m x) \<in> set (nodeIds tL) \<union> set (nodeIds tR)"
      using x g by (simp add: nonRootIds_def)
    then show ?thesis using T by auto
  qed
  have rt: "x = rootEvent m \<longrightarrow> isNode ?T (eventNode (events m x)) \<and> getLfDesc ?T \<noteq> NULL"
    using re T rho nn g by simp
  show "forwardSetBranchHistories m (Some x) = Inr (m\<lparr>histories := forwardSetSpec m x\<rparr>)"
    using fSBH_spec [OF dT bT nin rt] .
  have R: "repairs \<rho> tL tR (histories m) (forwardSetSpec m x) (forwardSetZone m x)"
  proof (cases "x = rootEvent m")
    case True
    have "forwardSetSpec m x = propagate (propagate (histories m) \<rho> tL) \<rho> tR"
      using True T by (simp add: forwardSetSpec_def)
    moreover have "forwardSetZone m x = zone (histories m) tL \<union> zone (histories m) tR"
      using True g by (simp add: forwardSetZone_def Let_def)
    ultimately show ?thesis using repairs_root [OF d] by simp
  next
    case False
    let ?i = "eventNode (events m x)"
    have iin: "?i \<in> set (nodeIds tL) \<union> set (nodeIds tR)"
      using False x g by (simp add: nonRootIds_def)
    obtain l r where f: "findNode (Node \<rho> tL tR) ?i = Node ?i l r"
      and s: "Node ?i l r \<in> set (subtrees tL) \<union> set (subtrees tR)"
      using nonRoot_subtree [OF d iin] by blast
    have f': "findNode ?T ?i = Node ?i l r" using f T by simp
    show ?thesis
    proof (cases "getLastEvent (histories m ?i) = Some x")
      case True
      let ?h1 = "(histories m)(?i := (histories m ?i)\<lparr>nodeEvent := Some x\<rparr>)"
      have ne: "eventsOnBranch (histories m ?i) \<noteq> []" and la: "last (eventsOnBranch (histories m ?i)) = x"
        using True by (auto simp: getLastEvent_def split: if_splits)
      have "forwardSetSpec m x = propagate (propagate ?h1 ?i l) ?i r"
        using False True f' by (simp add: forwardSetSpec_def Let_def)
      moreover have "forwardSetZone m x = insert ?i (zone (histories m) l \<union> zone (histories m) r)"
        using False True f' by (simp add: forwardSetZone_def Let_def)
      ultimately show ?thesis using repairs_node [where h = "histories m" and ?h1.0 = "?h1", OF d s ne la refl] by simp
    next
      case nl: False
      have "forwardSetSpec m x = histories m"
        using False nl f' by (simp add: forwardSetSpec_def Let_def)
      moreover have "forwardSetZone m x = {}"
        using False nl f' by (simp add: forwardSetZone_def Let_def)
      ultimately show ?thesis using repairs_none by simp
    qed
  qed
  show "repairs (nodeId ?T) (getLfDesc ?T) (getRtDesc ?T) (histories m) (forwardSetSpec m x)
      (forwardSetZone m x)"
    using R rho g by simp
qed

lemma cachesOK_Root:
  "cachesOK m =
   (nodeEvent (histories m (nodeId (root (theTree m)))) = Some (rootEvent m) \<and>
    cachesAgreeRoot {} (histories m) (nodeId (root (theTree m)))
      (getLfDesc (root (theTree m))) (getRtDesc (root (theTree m))))"
  by (auto simp: cachesOK_def cachesAgreeRoot_def)

subsection \<open>Lists\<close>

lemma distinct_insertEvent: "distinct xs \<Longrightarrow> e \<notin> set xs \<Longrightarrow> distinct (insertEvent pos e xs)"
  by (induction xs) (auto simp: set_insertEvent)

lemma insertEvent_nonempty: "insertEvent pos e xs \<noteq> []"
  by (cases xs) auto

lemma last_insertEvent:
  "last (insertEvent pos e xs) \<noteq> e \<Longrightarrow> xs \<noteq> [] \<and> last (insertEvent pos e xs) = last xs"
proof (induction xs)
  case Nil
  then show ?case by simp
next
  case (Cons y ys)
  show ?case
  proof (cases "pos e < pos y")
    case True
    then show ?thesis by simp
  next
    case False
    then have eq: "insertEvent pos e (y # ys) = y # insertEvent pos e ys" by simp
    have l: "last (insertEvent pos e (y # ys)) = last (insertEvent pos e ys)"
      unfolding eq using insertEvent_nonempty [of pos e ys] by (rule last_ConsR)
    then have "last (insertEvent pos e ys) \<noteq> e" using Cons.prems by simp
    then have ih: "ys \<noteq> [] \<and> last (insertEvent pos e ys) = last ys" by (rule Cons.IH)
    then have "last (y # ys) = last ys" by simp
    then show ?thesis using l ih by simp
  qed
qed

lemma last_remove1:
  "distinct xs \<Longrightarrow> e \<in> set xs \<Longrightarrow> last xs \<noteq> e \<Longrightarrow>
   remove1 e xs \<noteq> [] \<and> last (remove1 e xs) = last xs"
proof (induction xs)
  case Nil
  then show ?case by simp
next
  case (Cons y ys)
  show ?case
  proof (cases "y = e")
    case True
    then have "ys \<noteq> []" using Cons.prems(3) by auto
    then show ?thesis using True by simp
  next
    case False
    then have e: "e \<in> set ys" using Cons.prems(2) by simp
    then have ne: "ys \<noteq> []" by auto
    then have "last ys \<noteq> e" using Cons.prems(3) by simp
    then have ih: "remove1 e ys \<noteq> [] \<and> last (remove1 e ys) = last ys"
      using Cons.IH Cons.prems(1) e by simp
    have "remove1 e (y # ys) = y # remove1 e ys" using False by simp
    then show ?thesis using ih ne by simp
  qed
qed

lemma remove1_last:
  "distinct xs \<Longrightarrow> xs \<noteq> [] \<Longrightarrow> last xs = e \<Longrightarrow>
   remove1 e xs = butlast xs \<and> takeWhile (\<lambda>y. y \<noteq> e) xs = butlast xs"
proof (induction xs)
  case Nil
  then show ?case by simp
next
  case (Cons y ys)
  show ?case
  proof (cases "ys = []")
    case True
    then show ?thesis using Cons.prems by simp
  next
    case False
    then have l: "last ys = e" using Cons.prems(3) by simp
    then have "e \<in> set ys" using False last_in_set by blast
    then have ye: "y \<noteq> e" using Cons.prems(1) by auto
    have ih: "remove1 e ys = butlast ys \<and> takeWhile (\<lambda>y. y \<noteq> e) ys = butlast ys"
      using Cons.IH Cons.prems(1) False l by simp
    show ?thesis using ih ye False by simp
  qed
qed

lemma takeWhile_in: "takeWhile P xs = y # ys \<Longrightarrow> last (y # ys) \<in> set xs"
proof -
  assume a: "takeWhile P xs = y # ys"
  have "last (y # ys) \<in> set (y # ys)" by (rule last_in_set) simp
  then have "last (y # ys) \<in> set (takeWhile P xs)" using a by simp
  then show ?thesis by (rule set_takeWhileD [THEN conjunct1])
qed

lemma takeWhile_last_ne: "takeWhile (\<lambda>y. y \<noteq> e) xs = y # ys \<Longrightarrow> last (y # ys) \<noteq> e"
proof -
  assume a: "takeWhile (\<lambda>y. y \<noteq> e) xs = y # ys"
  have "last (y # ys) \<in> set (y # ys)" by (rule last_in_set) simp
  then have "last (y # ys) \<in> set (takeWhile (\<lambda>y. y \<noteq> e) xs)" using a by simp
  then show ?thesis using set_takeWhileD by fastforce
qed

subsection \<open>Two forward-settings after a change of the lists at two nodes\<close>

lemma relocation_repaired:
  assumes inv0: "cachesAgreeRoot {} h0 \<rho> tL tR"
    and caches: "\<And>j. nodeEvent (h1 j) = nodeEvent (h0 j) \<and>
                     ancestralNodeEvent (h1 j) = ancestralNodeEvent (h0 j)"
    and lists: "\<And>j. j \<noteq> n \<Longrightarrow> j \<noteq> n' \<Longrightarrow> eventsOnBranch (h1 j) = eventsOnBranch (h0 j)"
    and rA: "repairs \<rho> tL tR h1 hA ZA" and rB: "repairs \<rho> tL tR hA hB ZB"
    and cover: "\<And>j. j = n \<or> j = n' \<Longrightarrow> j \<notin> ZA \<Longrightarrow> j \<notin> ZB \<Longrightarrow>
        eventsOnBranch (h1 j) \<noteq> [] \<and> nodeEvent (h0 j) = Some (last (eventsOnBranch (h1 j)))"
  shows "cachesAgreeRoot {} hB \<rho> tL tR"
proof -
  let ?Y = "{n, n'}"
  have r1: "nodeEvent (h1 \<rho>) = nodeEvent (h0 \<rho>)" using caches by simp
  have c1: "cachesAgreeRoot ?Y h1 \<rho> tL tR"
    unfolding cachesAgreeRoot_def r1
    using inv0 cachesAgree_lists [of h0 _ _ h1 ?Y] caches lists
    by (auto simp: cachesAgreeRoot_def)
  have cA: "cachesAgreeRoot (?Y - ZA) hA \<rho> tL tR" using rA c1 by (simp add: repairs_def)
  have cB: "cachesAgreeRoot (?Y - ZA - ZB) hB \<rho> tL tR" using rB cA by (simp add: repairs_def)
  have ev: "\<And>j. eventsOnBranch (hB j) = eventsOnBranch (h1 j)"
    using rA rB by (simp add: repairs_def)
  have ne: "\<And>j. j \<notin> ZA \<Longrightarrow> j \<notin> ZB \<Longrightarrow> nodeEvent (hB j) = nodeEvent (h0 j)"
    using rA rB caches by (simp add: repairs_def)
  have fx: "eventsOnBranch (hB j) \<noteq> [] \<and> nodeEvent (hB j) = Some (last (eventsOnBranch (hB j)))"
    if "j \<in> ?Y - ZA - ZB" for j
    using that cover [of j] ev ne by auto
  show ?thesis
    using cB cachesAgree_fixup [of "?Y - ZA - ZB" hB _ tL] cachesAgree_fixup [of "?Y - ZA - ZB" hB _ tR] fx
    unfolding cachesAgreeRoot_def by blast
qed

lemma sameCore_OK:
  assumes "sameCore m m'"
  shows "treeOK m' = treeOK m" "eventsOK m' = eventsOK m" "cachesOK m' = cachesOK m"
  using assms unfolding sameCore_def treeOK_def eventsOK_def cachesOK_def by auto

lemma sameCore_forwardSet:
  assumes "sameCore m m'"
  shows "forwardSetSpec m' x = forwardSetSpec m x" "forwardSetZone m' x = forwardSetZone m x"
  using assms unfolding sameCore_def forwardSetSpec_def forwardSetZone_def Let_def
  by (auto split: node.splits)

lemma cachesOnly_OK:
  assumes "cachesOnly m m'"
  shows "treeOK m' = treeOK m" "eventsOK m' = eventsOK m" "lastOK m' = lastOK m"
  using assms unfolding cachesOnly_def
  by (auto simp: treeOK_def eventsOK_def lastOK_def)

lemma cachesOnly_histories:
  "(\<And>j. eventsOnBranch (h j) = eventsOnBranch (histories m j)) \<Longrightarrow>
   cachesOnly m (m\<lparr>histories := h\<rparr>)"
  unfolding cachesOnly_def by blast

lemma forwardSetZone_node:
  assumes w: "wfTree (root (theTree m))" and x: "x \<noteq> rootEvent m"
    and i: "eventNode (events m x) = i" "i \<in> set (nonRootIds (root (theTree m)))"
  shows "(i \<in> forwardSetZone m x) = (getLastEvent (histories m i) = Some x)"
proof -
  obtain \<rho> tL tR where T: "root (theTree m) = Node \<rho> tL tR"
    and d: "distinct (nodeIds (Node \<rho> tL tR))"
    and g: "getLfDesc (root (theTree m)) = tL" "getRtDesc (root (theTree m)) = tR"
    using wfTree_Node [OF w] by blast
  have "i \<in> set (nodeIds tL) \<union> set (nodeIds tR)" using i(2) g by (simp add: nonRootIds_def)
  then obtain l r where "findNode (Node \<rho> tL tR) i = Node i l r"
    using nonRoot_subtree [OF d] by blast
  then show ?thesis using x i(1) T by (simp add: forwardSetZone_def Let_def)
qed

text \<open>A new event on a branch, then forward-setting from it.\<close>

lemma insertion_consistent:
  assumes t: "treeOK m" and e: "eventsOK m" and c: "cachesOK m"
    and x: "x \<in> set (nonRootIds (root (theTree m)))"
    and s: "sameCore (insertedRecord x t ps m) m3"
  shows "\<exists>m4. forwardSetBranchHistories m3 (Some (nextEvent m)) = Inr m4 \<and> cachesOnly m3 m4 \<and>
           treeOK m4 \<and> eventsOK m4 \<and> cachesOK m4 \<and>
           nextEvent m \<in> set (eventCollection m4)"
proof -
  let ?T = "root (theTree m)"
  let ?e = "nextEvent m"
  let ?mi = "insertedRecord x t ps m"
  let ?NR = "set (nonRootIds ?T)"
  let ?h0 = "histories m"
  let ?h1 = "histories ?mi"
  have w: "wfTree ?T" using t by (simp add: treeOK_def)
  have Ti: "theTree ?mi = theTree m" "rootEvent ?mi = rootEvent m"
    by (simp_all add: insertedRecord_def Let_def)
  have re_ne: "rootEvent m \<noteq> ?e" using e by (auto simp: eventsOK_def)
  have fresh: "\<And>i. i \<in> ?NR \<Longrightarrow> ?e \<notin> set (eventsOnBranch (?h0 i))"
    using e by (auto simp: eventsOK_def)
  have ev_e: "events ?mi ?e = \<lparr>eventNode = x, mapTime = t, oldEventNode = x, oldMapTime = t,
      eventParams = ps\<rparr>"
    by (simp add: insertedRecord_def Let_def)
  have ev_o: "\<And>k. k \<noteq> ?e \<Longrightarrow> events ?mi k = events m k"
    by (simp add: insertedRecord_def Let_def)
  have l1: "\<And>j. j \<noteq> x \<Longrightarrow> ?h1 j = ?h0 j" by (simp add: insertedRecord_def Let_def)
  define pos where "pos = (\<lambda>k. mapTime (events ?mi k))"
  have lx: "eventsOnBranch (?h1 x) = insertEvent pos ?e (eventsOnBranch (?h0 x))"
    by (simp add: insertedRecord_def Let_def pos_def)
  have cch: "\<And>j. nodeEvent (?h1 j) = nodeEvent (?h0 j) \<and>
      ancestralNodeEvent (?h1 j) = ancestralNodeEvent (?h0 j)"
    by (simp add: insertedRecord_def Let_def)
  have tOK: "treeOK ?mi" using t Ti by (simp add: treeOK_def)
  have xr: "x \<noteq> nodeId ?T"
  proof -
    obtain \<rho> tL tR where "?T = Node \<rho> tL tR" "nodeId ?T = \<rho>"
      "distinct (nodeIds (Node \<rho> tL tR))" "getLfDesc ?T = tL" "getRtDesc ?T = tR"
      using wfTree_Node [OF w] by blast
    then show ?thesis using x by (auto simp: nonRootIds_def)
  qed
  have E1: "eventNode (events ?mi (rootEvent m)) = nodeId ?T"
    using e ev_o [OF re_ne] by (simp add: eventsOK_def)
  have E2: "rootEvent m < nextEvent ?mi" using e by (simp add: eventsOK_def insertedRecord_def Let_def)
  have E3: "eventsOnBranch (?h1 (nodeId ?T)) = []"
    using e l1 [of "nodeId ?T"] xr by (simp add: eventsOK_def)
  have E4: "distinct (eventsOnBranch (?h1 i))" if i: "i \<in> ?NR" for i
  proof (cases "i = x")
    case True
    then show ?thesis using lx e i fresh [OF i]
      by (simp add: eventsOK_def distinct_insertEvent)
  next
    case False
    then show ?thesis using l1 e i by (simp add: eventsOK_def)
  qed
  have E5: "eventNode (events ?mi k) = i \<and> oldEventNode (events ?mi k) \<in> ?NR \<and>
          k < nextEvent ?mi \<and> k \<noteq> rootEvent m"
    if i: "i \<in> ?NR" and k: "k \<in> set (eventsOnBranch (?h1 i))" for i k
  proof (cases "k = ?e")
    case True
    have "i = x"
    proof (rule ccontr)
      assume "i \<noteq> x"
      then have "k \<in> set (eventsOnBranch (?h0 i))" using k l1 by simp
      then show False using fresh [OF i] True by simp
    qed
    then show ?thesis using True ev_e x re_ne by (simp add: insertedRecord_def Let_def)
  next
    case False
    then have "k \<in> set (eventsOnBranch (?h0 i))"
      using k lx l1 [of i] by (cases "i = x") (auto simp: set_insertEvent)
    then have "eventNode (events m k) = i \<and> oldEventNode (events m k) \<in> ?NR \<and>
        k < nextEvent m \<and> k \<noteq> rootEvent m"
      using e i by (simp add: eventsOK_def)
    then show ?thesis using ev_o [OF False] by (simp add: insertedRecord_def Let_def)
  qed
  have E6: "set (eventCollection ?mi) = (\<Union>i \<in> ?NR. set (eventsOnBranch (?h1 i)))"
  proof -
    have "(\<Union>i \<in> ?NR. set (eventsOnBranch (?h1 i))) =
          insert ?e (\<Union>i \<in> ?NR. set (eventsOnBranch (?h0 i)))"
    proof -
      have "\<And>i. set (eventsOnBranch (?h1 i)) =
          (if i = x then insert ?e (set (eventsOnBranch (?h0 i))) else set (eventsOnBranch (?h0 i)))"
        using lx l1 by (simp add: set_insertEvent)
      then show ?thesis using x by auto
    qed
    moreover have "set (eventCollection ?mi) = insert ?e (set (eventCollection m))"
      by (simp add: insertedRecord_def Let_def set_insertCollection)
    ultimately show ?thesis using e by (simp add: eventsOK_def)
  qed
  have eOK: "eventsOK ?mi"
    unfolding eventsOK_def Ti using E1 E2 E3 E4 E5 E6 by blast
  have t3: "treeOK m3" and e3: "eventsOK m3" using sameCore_OK [OF s] tOK eOK by simp_all
  have T3: "theTree m3 = theTree m" "rootEvent m3 = rootEvent m" "histories m3 = ?h1"
    "events m3 = events ?mi" "eventCollection m3 = eventCollection ?mi"
    using s Ti by (simp_all add: sameCore_def)
  have w3: "wfTree (root (theTree m3))" using w T3 by simp
  have re3: "eventNode (events m3 (rootEvent m3)) = nodeId (root (theTree m3))"
    using e3 by (simp add: eventsOK_def)
  have en3: "eventNode (events m3 ?e) = x" using T3 ev_e by simp
  have x3: "?e = rootEvent m3 \<or> eventNode (events m3 ?e) \<in> set (nonRootIds (root (theTree m3)))"
    using en3 x T3 by simp
  note F = forwardSet_repairs [OF w3 re3 x3]
  let ?hB = "forwardSetSpec m3 ?e"
  let ?ZB = "forwardSetZone m3 ?e"
  let ?m4 = "m3\<lparr>histories := ?hB\<rparr>"
  let ?\<rho> = "nodeId ?T"
  have rB: "repairs ?\<rho> (getLfDesc ?T) (getRtDesc ?T) ?h1 ?hB ?ZB" using F(2) T3 by simp
  have inv0: "cachesAgreeRoot {} ?h0 ?\<rho> (getLfDesc ?T) (getRtDesc ?T)"
    using c by (simp add: cachesOK_Root)
  have zx: "(x \<in> ?ZB) = (getLastEvent (?h1 x) = Some ?e)"
    using forwardSetZone_node [OF w3 _ en3] re_ne T3 x by simp
  have cover: "eventsOnBranch (?h1 j) \<noteq> [] \<and> nodeEvent (?h0 j) = Some (last (eventsOnBranch (?h1 j)))"
    if "j = x \<or> j = x" "j \<notin> {}" "j \<notin> ?ZB" for j
  proof -
    have j: "j = x" using that(1) by simp
    have ne: "eventsOnBranch (?h1 x) \<noteq> []" using lx insertEvent_nonempty by simp
    have "getLastEvent (?h1 x) \<noteq> Some ?e" using that(3) zx j by simp
    then have "last (eventsOnBranch (?h1 x)) \<noteq> ?e" using ne by (simp add: getLastEvent_def)
    then have b: "eventsOnBranch (?h0 x) \<noteq> [] \<and>
        last (eventsOnBranch (?h1 x)) = last (eventsOnBranch (?h0 x))"
      using last_insertEvent [of pos ?e "eventsOnBranch (?h0 x)"] lx by simp
    have xin: "x \<in> set (nodeIds (getLfDesc ?T)) \<union> set (nodeIds (getRtDesc ?T))"
      using x by (simp add: nonRootIds_def)
    have "nodeEvent (?h0 x) = Some (last (eventsOnBranch (?h0 x)))"
      using xin c b cachesAgree_nonempty [of ?h0 _ _ x] by (auto simp: cachesOK_def)
    then show ?thesis using j ne b by simp
  qed
  have lists: "\<And>j. j \<noteq> x \<Longrightarrow> j \<noteq> x \<Longrightarrow> eventsOnBranch (?h1 j) = eventsOnBranch (?h0 j)"
    using l1 by simp
  have cB: "cachesAgreeRoot {} ?hB ?\<rho> (getLfDesc ?T) (getRtDesc ?T)"
    using relocation_repaired [OF inv0 cch lists repairs_none rB cover] by blast
  have rhoB: "?hB ?\<rho> = ?h1 ?\<rho>" using rB by (simp add: repairs_def)
  have c4: "cachesOK ?m4"
    using cB rhoB cch [of ?\<rho>] c T3 by (simp add: cachesOK_Root)
  have co: "cachesOnly m3 ?m4"
    using rB T3 by (intro cachesOnly_histories) (simp add: repairs_def)
  have "nextEvent m \<in> set (eventCollection ?m4)"
    using T3 by (simp add: insertedRecord_def Let_def set_insertCollection)
  then show ?thesis using F(1) co cachesOnly_OK [OF co] t3 e3 c4 by blast
qed

lemma subtree_unique:
  "distinct (nodeIds t) \<Longrightarrow> Node i l r \<in> set (subtrees t) \<Longrightarrow>
   Node i l' r' \<in> set (subtrees t) \<Longrightarrow> l = l' \<and> r = r'"
proof (induction t)
  case NULL
  then show ?case by simp
next
  case (Node k a b)
  have ia: "\<And>x y. Node i x y \<in> set (subtrees a) \<Longrightarrow> i \<in> set (nodeIds a)"
    using subtrees_ids by fastforce
  have ib: "\<And>x y. Node i x y \<in> set (subtrees b) \<Longrightarrow> i \<in> set (nodeIds b)"
    using subtrees_ids by fastforce
  have da: "distinct (nodeIds a)" and db: "distinct (nodeIds b)"
    and ka: "k \<notin> set (nodeIds a)" and kb: "k \<notin> set (nodeIds b)"
    and ab: "set (nodeIds a) \<inter> set (nodeIds b) = {}"
    using Node.prems(1) by auto
  consider (T) "Node i l r = Node k a b" | (A) "Node i l r \<in> set (subtrees a)"
    | (B) "Node i l r \<in> set (subtrees b)"
    using Node.prems(2) by auto
  then show ?case
  proof cases
    case T
    then have "i = k" by simp
    then have "Node i l' r' = Node k a b" using Node.prems(3) ia ib ka kb by auto
    then show ?thesis using T by simp
  next
    case A
    then have "i \<in> set (nodeIds a)" using ia by blast
    then have "Node i l' r' \<in> set (subtrees a)" using Node.prems(3) ib ka ab by auto
    then show ?thesis using Node.IH(1) [OF da A] by simp
  next
    case B
    then have "i \<in> set (nodeIds b)" using ib by blast
    then have "Node i l' r' \<in> set (subtrees b)" using Node.prems(3) ia kb ab by auto
    then show ?thesis using Node.IH(2) [OF db B] by simp
  qed
qed

lemma findNode_of_subtree:
  assumes "distinct (nodeIds t)" "Node i l r \<in> set (subtrees t)"
  shows "findNode t i = Node i l r"
proof -
  have "i \<in> set (nodeIds t)" using subtrees_ids [OF assms(2)] by auto
  then obtain l' r' where f: "findNode t i = Node i l' r'" and s: "Node i l' r' \<in> set (subtrees t)"
    using findNode_subtree by blast
  then show ?thesis using subtree_unique [OF assms(1,2) s] by simp
qed

lemma subtree_top_notin:
  assumes "distinct (nodeIds t)" "Node k kl kr \<in> set (subtrees t)"
  shows "k \<notin> set (nodeIds kl) \<union> set (nodeIds kr)"
  using subtrees_distinct [OF assms] by auto

lemma relocation_basics:
  assumes e: "eventsOK m" and ein: "ev \<in> set (eventCollection m)" and r: "relocates m ev m4"
  shows "eventNode (events m ev) \<in> set (nonRootIds (root (theTree m)))"
    and "ev \<in> set (eventsOnBranch (histories m (eventNode (events m ev))))"
    and "distinct (eventsOnBranch (histories m (eventNode (events m ev))))"
    and "theTree (addEventToBranchHistory (eventNode (events m4 ev)) ev m4) = theTree m"
    and "rootEvent (addEventToBranchHistory (eventNode (events m4 ev)) ev m4) = rootEvent m"
    and "events (addEventToBranchHistory (eventNode (events m4 ev)) ev m4) = events m4"
    and "nextEvent (addEventToBranchHistory (eventNode (events m4 ev)) ev m4) = nextEvent m"
    and "eventCollection (addEventToBranchHistory (eventNode (events m4 ev)) ev m4) = eventCollection m"
    and "\<And>j. nodeEvent (histories (addEventToBranchHistory (eventNode (events m4 ev)) ev m4) j) =
           nodeEvent (histories m j) \<and>
         ancestralNodeEvent (histories (addEventToBranchHistory (eventNode (events m4 ev)) ev m4) j) =
           ancestralNodeEvent (histories m j)"
    and "\<And>j. j \<noteq> eventNode (events m ev) \<Longrightarrow> j \<noteq> eventNode (events m4 ev) \<Longrightarrow>
           eventsOnBranch (histories (addEventToBranchHistory (eventNode (events m4 ev)) ev m4) j) =
           eventsOnBranch (histories m j)"
    and "\<exists>pos. eventsOnBranch (histories (addEventToBranchHistory (eventNode (events m4 ev)) ev m4)
            (eventNode (events m4 ev))) =
          insertEvent pos ev
            (if eventNode (events m4 ev) = eventNode (events m ev)
             then remove1 ev (eventsOnBranch (histories m (eventNode (events m ev))))
             else eventsOnBranch (histories m (eventNode (events m4 ev))))"
    and "eventNode (events m ev) \<noteq> eventNode (events m4 ev) \<Longrightarrow>
         eventsOnBranch (histories (addEventToBranchHistory (eventNode (events m4 ev)) ev m4)
            (eventNode (events m ev))) =
         remove1 ev (eventsOnBranch (histories m (eventNode (events m ev))))"
proof -
  let ?N = "eventNode (events m ev)"
  let ?N' = "eventNode (events m4 ev)"
  let ?m5 = "addEventToBranchHistory ?N' ev m4"
  have U: "set (eventCollection m) =
        (\<Union>i \<in> set (nonRootIds (root (theTree m))). set (eventsOnBranch (histories m i)))"
    using e unfolding eventsOK_def by blast
  have P: "\<And>i k. i \<in> set (nonRootIds (root (theTree m))) \<Longrightarrow>
      k \<in> set (eventsOnBranch (histories m i)) \<Longrightarrow> eventNode (events m k) = i"
    using e unfolding eventsOK_def by blast
  have D: "\<And>i. i \<in> set (nonRootIds (root (theTree m))) \<Longrightarrow>
      distinct (eventsOnBranch (histories m i))"
    using e unfolding eventsOK_def by blast
  obtain i where i: "i \<in> set (nonRootIds (root (theTree m)))"
    "ev \<in> set (eventsOnBranch (histories m i))"
    using ein U by blast
  have iN: "i = ?N" using P [OF i] by simp
  show "?N \<in> set (nonRootIds (root (theTree m)))" using i iN by simp
  show "ev \<in> set (eventsOnBranch (histories m ?N))" using i iN by simp
  show "distinct (eventsOnBranch (histories m ?N))" using D i iN by simp
  have h4: "histories m4 = histories (popEventOffBranchHistory ?N ev m)"
    and r1: "theTree m4 = theTree m" and r2: "rootEvent m4 = rootEvent m"
    and r3: "nextEvent m4 = nextEvent m" and r4: "eventCollection m4 = eventCollection m"
    using r unfolding relocates_def by blast+
  show "theTree ?m5 = theTree m" using r1 by (simp add: addEventToBranchHistory_def)
  show "rootEvent ?m5 = rootEvent m" using r2 by (simp add: addEventToBranchHistory_def)
  show "events ?m5 = events m4" by (simp add: addEventToBranchHistory_def)
  show "nextEvent ?m5 = nextEvent m" using r3 by (simp add: addEventToBranchHistory_def)
  show "eventCollection ?m5 = eventCollection m" using r4 by (simp add: addEventToBranchHistory_def)
  have H5: "histories ?m5 = (histories m4)(?N' := (histories m4 ?N')
        \<lparr>eventsOnBranch := insertEvent (\<lambda>k. mapTime (events m4 k)) ev
            (eventsOnBranch (histories m4 ?N'))\<rparr>)"
    by (simp add: addEventToBranchHistory_def)
  have H4: "histories m4 = (histories m)(?N := (histories m ?N)
        \<lparr>eventsOnBranch := remove1 ev (eventsOnBranch (histories m ?N))\<rparr>)"
    unfolding h4 by (simp add: popEventOffBranchHistory_def)
  show "\<And>j. nodeEvent (histories ?m5 j) = nodeEvent (histories m j) \<and>
         ancestralNodeEvent (histories ?m5 j) = ancestralNodeEvent (histories m j)"
    unfolding H5 H4 by simp
  show "\<And>j. j \<noteq> ?N \<Longrightarrow> j \<noteq> ?N' \<Longrightarrow>
           eventsOnBranch (histories ?m5 j) = eventsOnBranch (histories m j)"
    unfolding H5 H4 by simp
  show "\<exists>pos. eventsOnBranch (histories ?m5 ?N') =
          insertEvent pos ev
            (if ?N' = ?N then remove1 ev (eventsOnBranch (histories m ?N))
             else eventsOnBranch (histories m ?N'))"
    unfolding H5 H4 by (rule exI [of _ "\<lambda>k. mapTime (events m4 k)"]) simp
  show "?N \<noteq> ?N' \<Longrightarrow> eventsOnBranch (histories ?m5 ?N) =
         remove1 ev (eventsOnBranch (histories m ?N))"
    unfolding H5 H4 by simp
qed

lemma nodeId_notin_nonRoot: "wfTree t \<Longrightarrow> nodeId t \<notin> set (nonRootIds t)"
proof -
  assume w: "wfTree t"
  obtain i tL tR where "t = Node i tL tR" "nodeId t = i" "distinct (nodeIds (Node i tL tR))"
    "getLfDesc t = tL" "getRtDesc t = tR"
    using wfTree_Node [OF w] by blast
  then show ?thesis by (auto simp: nonRootIds_def)
qed

lemma relocation_eventsOK:
  assumes t: "treeOK m" and e: "eventsOK m" and ein: "ev \<in> set (eventCollection m)"
    and r: "relocates m ev m4"
  shows "eventsOK (addEventToBranchHistory (eventNode (events m4 ev)) ev m4)"
proof -
  let ?N = "eventNode (events m ev)"
  let ?N' = "eventNode (events m4 ev)"
  let ?m5 = "addEventToBranchHistory ?N' ev m4"
  let ?NR = "set (nonRootIds (root (theTree m)))"
  let ?ev0 = "\<lambda>j. eventsOnBranch (histories m j)"
  let ?ev1 = "\<lambda>j. eventsOnBranch (histories ?m5 j)"
  let ?\<rho> = "nodeId (root (theTree m))"
  note B = relocation_basics [OF e ein r]
  have w: "wfTree (root (theTree m))" using t unfolding treeOK_def by blast
  have U: "set (eventCollection m) = (\<Union>i \<in> ?NR. set (?ev0 i))"
    and P: "\<And>i k. i \<in> ?NR \<Longrightarrow> k \<in> set (?ev0 i) \<Longrightarrow>
      eventNode (events m k) = i \<and> oldEventNode (events m k) \<in> ?NR \<and>
      k < nextEvent m \<and> k \<noteq> rootEvent m"
    and D: "\<And>i. i \<in> ?NR \<Longrightarrow> distinct (?ev0 i)"
    and R1: "eventNode (events m (rootEvent m)) = ?\<rho>"
    and R2: "rootEvent m < nextEvent m" and R3: "?ev0 ?\<rho> = []"
    using e unfolding eventsOK_def by blast+
  have N: "?N \<in> ?NR" and eN: "ev \<in> set (?ev0 ?N)" and dN: "distinct (?ev0 ?N)"
    using B(1-3) by blast+
  have N': "?N' \<in> ?NR" and old: "oldEventNode (events m4 ev) \<in> ?NR"
    and oth: "\<And>k. k \<noteq> ev \<Longrightarrow> events m4 k = events m k"
    using r unfolding relocates_def by blast+
  have evp: "ev < nextEvent m" "ev \<noteq> rootEvent m" using P [OF N eN] by simp_all
  obtain pos where l1: "?ev1 ?N' = insertEvent pos ev
      (if ?N' = ?N then remove1 ev (?ev0 ?N) else ?ev0 ?N')"
    using B(11) by blast
  have ev_other: "ev \<notin> set (?ev0 i)" if "i \<in> ?NR" "i \<noteq> ?N" for i
    using P [OF that(1)] that(2) by blast
  have S: "set (?ev1 i) = (if i = ?N' then insert ev (set (?ev0 i) - {ev}) else set (?ev0 i) - {ev})"
    if i: "i \<in> ?NR" for i
  proof (cases "i = ?N'")
    case True
    show ?thesis
    proof (cases "?N' = ?N")
      case same: True
      then show ?thesis using True l1 dN by (simp add: set_insertEvent)
    next
      case diff: False
      then have "ev \<notin> set (?ev0 ?N')" using ev_other [OF N'] by simp
      then show ?thesis using True l1 diff by (simp add: set_insertEvent)
    qed
  next
    case False
    show ?thesis
    proof (cases "i = ?N")
      case True
      then have "?ev1 i = remove1 ev (?ev0 ?N)" using B(12) False by simp
      then show ?thesis using True False dN by simp
    next
      case nN: False
      then have "?ev1 i = ?ev0 i" using B(10) False by simp
      then show ?thesis using False ev_other [OF i nN] by simp
    qed
  qed
  have E4: "distinct (?ev1 i)" if i: "i \<in> ?NR" for i
  proof (cases "i = ?N'")
    case True
    have "distinct (if ?N' = ?N then remove1 ev (?ev0 ?N) else ?ev0 ?N')"
      using dN D [OF N'] by simp
    moreover have "ev \<notin> set (if ?N' = ?N then remove1 ev (?ev0 ?N) else ?ev0 ?N')"
      using dN ev_other [OF N'] by auto
    ultimately show ?thesis using True l1 by (simp add: distinct_insertEvent)
  next
    case False
    show ?thesis
    proof (cases "i = ?N")
      case True
      then have "?ev1 i = remove1 ev (?ev0 ?N)" using B(12) False by simp
      then show ?thesis using dN by simp
    next
      case nN: False
      then have "?ev1 i = ?ev0 i" using B(10) False by simp
      then show ?thesis using D [OF i] by simp
    qed
  qed
  have E5: "eventNode (events m4 k) = i \<and> oldEventNode (events m4 k) \<in> ?NR \<and>
      k < nextEvent m \<and> k \<noteq> rootEvent m"
    if i: "i \<in> ?NR" and k: "k \<in> set (?ev1 i)" for i k
  proof (cases "k = ev")
    case True
    then have "i = ?N'" using k S [OF i] by (auto split: if_splits)
    then show ?thesis using True old evp by simp
  next
    case False
    then have "k \<in> set (?ev0 i)" using k S [OF i] by (auto split: if_splits)
    then show ?thesis using P [OF i] oth [OF False] by simp
  qed
  have E6: "set (eventCollection m) = (\<Union>i \<in> ?NR. set (?ev1 i))"
  proof -
    have "(\<Union>i \<in> ?NR. set (?ev1 i)) = (\<Union>i \<in> ?NR. set (?ev0 i))"
    proof (intro equalityI subsetI)
      fix k assume "k \<in> (\<Union>i \<in> ?NR. set (?ev1 i))"
      then obtain i where i: "i \<in> ?NR" "k \<in> set (?ev1 i)" by blast
      show "k \<in> (\<Union>i \<in> ?NR. set (?ev0 i))"
      proof (cases "k = ev")
        case True
        then show ?thesis using N eN by blast
      next
        case False
        then have "k \<in> set (?ev0 i)" using i S [OF i(1)] by (auto split: if_splits)
        then show ?thesis using i(1) by blast
      qed
    next
      fix k assume "k \<in> (\<Union>i \<in> ?NR. set (?ev0 i))"
      then obtain i where i: "i \<in> ?NR" "k \<in> set (?ev0 i)" by blast
      show "k \<in> (\<Union>i \<in> ?NR. set (?ev1 i))"
      proof (cases "k = ev")
        case True
        have "ev \<in> set (?ev1 ?N')" using S [OF N'] by simp
        then show ?thesis using True N' by blast
      next
        case False
        then have "k \<in> set (?ev1 i)" using i(2) S [OF i(1)] by (cases "i = ?N'") auto
        then show ?thesis using i(1) by blast
      qed
    qed
    then show ?thesis using U by simp
  qed
  have rho: "?\<rho> \<notin> ?NR" using nodeId_notin_nonRoot [OF w] .
  have "?\<rho> \<noteq> ?N" "?\<rho> \<noteq> ?N'" using rho N N' by metis+
  then have "?ev1 ?\<rho> = ?ev0 ?\<rho>" by (rule B(10))
  then have E3: "?ev1 ?\<rho> = []" using R3 by simp
  have E1: "eventNode (events m4 (rootEvent m)) = ?\<rho>" using oth [of "rootEvent m"] evp R1 by simp
  show ?thesis
    unfolding eventsOK_def B(4-8) using E1 R2 E3 E4 E5 E6 by blast
qed

lemma forwardSetZone_fired:
  assumes "x \<noteq> rootEvent m" "findNode (root (theTree m)) (eventNode (events m x)) = Node i l r"
    and "getLastEvent (histories m i) = Some x"
  shows "forwardSetZone m x = insert i (zone (histories m) l \<union> zone (histories m) r)"
  using assms by (simp add: forwardSetZone_def Let_def)

lemma forwardSetZone_root:
  "forwardSetZone m (rootEvent m) =
   zone (histories m) (getLfDesc (root (theTree m))) \<union> zone (histories m) (getRtDesc (root (theTree m)))"
  by (simp add: forwardSetZone_def Let_def)

lemma getLastEventBefore_Inr:
  "x \<in> set (eventsOnBranch h) \<Longrightarrow>
   getLastEventBefore h x =
     Inr (if takeWhile (\<lambda>y. y \<noteq> x) (eventsOnBranch h) = [] then ancestralNodeEvent h
          else Some (last (takeWhile (\<lambda>y. y \<noteq> x) (eventsOnBranch h))))"
  by (cases "takeWhile (\<lambda>y. y \<noteq> x) (eventsOnBranch h)") (simp_all add: getLastEventBefore_def)

text \<open>The reference a branch inherits is the Root Event or the last event of a branch above.\<close>

lemma inherited_valid:
  assumes d: "distinct (nodeIds p)" and c: "cachesAgree {} h (Some re) p" and n: "n \<in> set (nodeIds p)"
  shows "ancestralNodeEvent (h n) = Some re \<and> n \<in> visited h p \<or>
         (\<exists>k kl kr. Node k kl kr \<in> set (subtrees p) \<and> eventsOnBranch (h k) \<noteq> [] \<and>
            k \<noteq> n \<and> k \<in> set (nodeIds p) \<and> n \<in> visited h kl \<union> visited h kr \<and>
            ancestralNodeEvent (h n) = Some (last (eventsOnBranch (h k))))"
proof -
  from provenance [OF c n] show ?thesis
  proof
    assume "n \<in> visited h p \<and> ancestralNodeEvent (h n) = Some re"
    then show ?thesis by blast
  next
    assume "\<exists>k kl kr. Node k kl kr \<in> set (subtrees p) \<and> eventsOnBranch (h k) \<noteq> [] \<and>
       n \<in> visited h kl \<union> visited h kr \<and>
       ancestralNodeEvent (h n) = Some (last (eventsOnBranch (h k)))"
    then obtain k kl kr where k: "Node k kl kr \<in> set (subtrees p)" "eventsOnBranch (h k) \<noteq> []"
      "n \<in> visited h kl \<union> visited h kr"
      "ancestralNodeEvent (h n) = Some (last (eventsOnBranch (h k)))" by blast
    have "n \<in> set (nodeIds kl) \<union> set (nodeIds kr)"
      using k(3) visited_ids [of h kl] visited_ids [of h kr] by blast
    then have "k \<noteq> n" using subtree_top_notin [OF d k(1)] by blast
    moreover have "k \<in> set (nodeIds p)" using subtrees_ids [OF k(1)] by auto
    ultimately show ?thesis using k by blast
  qed
qed

lemma relocation_cover:
  fixes h0 h1 :: "nat \<Rightarrow> branchHistory" and node :: "nat \<Rightarrow> nat"
  assumes d: "distinct (nodeIds (Node \<rho> tL tR))"
    and cL: "cachesAgree {} h0 (Some re) tL" and cR: "cachesAgree {} h0 (Some re) tR"
    and Nin: "n \<in> set (nodeIds tL) \<union> set (nodeIds tR)"
    and N'in: "n' \<in> set (nodeIds tL) \<union> set (nodeIds tR)"
    and evN: "ev \<in> set (eventsOnBranch (h0 n))" and dN: "distinct (eventsOnBranch (h0 n))"
    and lists: "\<And>j. j \<noteq> n \<Longrightarrow> j \<noteq> n' \<Longrightarrow> eventsOnBranch (h1 j) = eventsOnBranch (h0 j)"
    and l1: "eventsOnBranch (h1 n') = insertEvent pos ev
               (if n' = n then remove1 ev (eventsOnBranch (h0 n)) else eventsOnBranch (h0 n'))"
    and l2: "n \<noteq> n' \<Longrightarrow> eventsOnBranch (h1 n) = remove1 ev (eventsOnBranch (h0 n))"
    and prevq: "(if takeWhile (\<lambda>y. y \<noteq> ev) (eventsOnBranch (h0 n)) = [] then ancestralNodeEvent (h0 n)
                 else Some (last (takeWhile (\<lambda>y. y \<noteq> ev) (eventsOnBranch (h0 n))))) = Some q"
    and own: "\<And>k a. k \<in> set (nodeIds tL) \<union> set (nodeIds tR) \<Longrightarrow> a \<in> set (eventsOnBranch (h0 k)) \<Longrightarrow>
                node a = k \<and> a \<noteq> re"
    and ZB: "\<And>l r. Node n' l r \<in> set (subtrees tL) \<union> set (subtrees tR) \<Longrightarrow>
                last (eventsOnBranch (h1 n')) = ev \<Longrightarrow> ZB = insert n' (zone h1 l \<union> zone h1 r)"
    and ZA: "\<And>k l r. q \<noteq> re \<Longrightarrow> q \<noteq> ev \<Longrightarrow> Node k l r \<in> set (subtrees tL) \<union> set (subtrees tR) \<Longrightarrow>
                node q = k \<Longrightarrow> eventsOnBranch (h1 k) \<noteq> [] \<Longrightarrow> last (eventsOnBranch (h1 k)) = q \<Longrightarrow>
                ZA = insert k (zone h1 l \<union> zone h1 r)"
    and ZAroot: "q = re \<Longrightarrow> ZA = zone h1 tL \<union> zone h1 tR"
    and j: "j = n \<or> j = n'" "j \<notin> ZA" "j \<notin> ZB"
  shows "eventsOnBranch (h1 j) \<noteq> [] \<and> nodeEvent (h0 j) = Some (last (eventsOnBranch (h1 j)))"
proof -
  let ?xs = "eventsOnBranch (h0 n)"
  let ?tw = "takeWhile (\<lambda>y. y \<noteq> ev) ?xs"
  let ?base = "if n' = n then remove1 ev ?xs else eventsOnBranch (h0 n')"
  let ?S = "set (subtrees tL) \<union> set (subtrees tR)"
  have dL: "distinct (nodeIds tL)" and dR: "distinct (nodeIds tR)" using d by auto
  have xs_ne: "?xs \<noteq> []" using evN by auto
  have sub_ex: "\<exists>l r. Node k l r \<in> ?S" if "k \<in> set (nodeIds tL) \<union> set (nodeIds tR)" for k
    using that findNode_subtree [of k tL] findNode_subtree [of k tR] by blast
  have cache_ne: "nodeEvent (h0 k) = Some (last (eventsOnBranch (h0 k)))"
    if "k \<in> set (nodeIds tL) \<union> set (nodeIds tR)" "eventsOnBranch (h0 k) \<noteq> []" for k
    using that cachesAgree_nonempty [OF cL] cachesAgree_nonempty [OF cR] by blast
  have neN: "nodeEvent (h0 n) = Some (last ?xs)" using cache_ne [OF Nin xs_ne] .
  have ne1: "eventsOnBranch (h1 n') \<noteq> []" using l1 insertEvent_nonempty by simp
  have a: "last (eventsOnBranch (h1 n')) \<noteq> ev" if "n' \<notin> ZB"
  proof
    assume la: "last (eventsOnBranch (h1 n')) = ev"
    obtain l r where "Node n' l r \<in> ?S" using sub_ex [OF N'in] by blast
    then have "ZB = insert n' (zone h1 l \<union> zone h1 r)" using ZB la by blast
    then show False using that by simp
  qed
  have K1: "q = last (butlast ?xs) \<and> q \<noteq> ev \<and> q \<noteq> re \<and> node q = n"
    if la: "last ?xs = ev" and bl: "butlast ?xs \<noteq> []"
  proof -
    have tw: "?tw = butlast ?xs" using remove1_last [OF dN xs_ne la] by simp
    then have q: "q = last (butlast ?xs)" using prevq bl by simp
    have qin: "q \<in> set (butlast ?xs)" using q bl by simp
    then have qxs: "q \<in> set ?xs" by (rule in_set_butlastD)
    have "?xs = butlast ?xs @ [ev]" using xs_ne la by (metis append_butlast_last_id)
    then have "ev \<notin> set (butlast ?xs)" using dN by (metis distinct_append disjoint_iff list.set_intros(1))
    then have "q \<noteq> ev" using qin by blast
    then show ?thesis using q own [OF Nin qxs] by simp
  qed
  have K2: "n \<in> ZA"
    if la: "last ?xs = ev" and bl: "butlast ?xs \<noteq> []"
      and e1: "eventsOnBranch (h1 n) \<noteq> []" "last (eventsOnBranch (h1 n)) = last (butlast ?xs)"
  proof -
    obtain l r where s: "Node n l r \<in> ?S" using sub_ex [OF Nin] by blast
    from K1 [OF la bl] have q1: "q \<noteq> re" and q2: "q \<noteq> ev" and q3: "node q = n"
      and q4: "last (eventsOnBranch (h1 n)) = q" using e1(2) by metis+
    have "ZA = insert n (zone h1 l \<union> zone h1 r)"
      by (rule ZA [OF q1 q2 s q3 e1(1) q4])
    then show ?thesis by simp
  qed
  show ?thesis
  proof (cases "j = n'")
    case True
    have b: "?base \<noteq> [] \<and> last (eventsOnBranch (h1 n')) = last ?base"
      using a j(3) True last_insertEvent [of pos ev ?base] l1 by simp
    show ?thesis
    proof (cases "n' = n")
      case False
      then have "nodeEvent (h0 n') = Some (last (eventsOnBranch (h0 n')))"
        using cache_ne [OF N'in] b by simp
      then show ?thesis using True ne1 b False by simp
    next
      case same: True
      show ?thesis
      proof (cases "last ?xs = ev")
        case False
        then have "last (remove1 ev ?xs) = last ?xs" using last_remove1 [OF dN evN] by simp
        then show ?thesis using True ne1 b same neN by simp
      next
        case la: True
        have bl: "remove1 ev ?xs = butlast ?xs" using remove1_last [OF dN xs_ne la] by simp
        then have blne: "butlast ?xs \<noteq> []" using b same by simp
        have "n \<in> ZA" using K2 [OF la blne] ne1 b same bl by simp
        then show ?thesis using j(2) True same by simp
      qed
    qed
  next
    case False
    then have jn: "j = n" and nn: "n \<noteq> n'" using j(1) by auto
    have e1: "eventsOnBranch (h1 n) = remove1 ev ?xs" using l2 [OF nn] .
    show ?thesis
    proof (cases "last ?xs = ev")
      case False
      then show ?thesis using last_remove1 [OF dN evN] e1 neN jn by simp
    next
      case la: True
      have bl: "remove1 ev ?xs = butlast ?xs" and tw: "?tw = butlast ?xs"
        using remove1_last [OF dN xs_ne la] by simp_all
      show ?thesis
      proof (cases "butlast ?xs = []")
        case False
        then have "n \<in> ZA" using K2 [OF la False] e1 bl by simp
        then show ?thesis using j(2) jn by simp
      next
        case emp: True
        have e1n: "eventsOnBranch (h1 n) = []" using e1 bl emp by simp
        have aq: "ancestralNodeEvent (h0 n) = Some q" using prevq tw emp by simp
        have CH: "eventsOnBranch (h1 k) = []" if "eventsOnBranch (h0 k) = []" "k \<noteq> n'" for k
          using that lists [of k] e1n by (cases "k = n") auto
        have base0: "eventsOnBranch (h0 n') = [] \<Longrightarrow> last (eventsOnBranch (h1 n')) = ev"
          using l1 nn by simp
        have SH: "n \<in> ZB"
          if "Node n' nl nr \<in> ?S" "eventsOnBranch (h0 n') = []" "n \<in> zone h1 nl \<union> zone h1 nr"
          for nl nr
        proof -
          have "ZB = insert n' (zone h1 nl \<union> zone h1 nr)" using ZB [OF that(1)] base0 that(2) by simp
          then show ?thesis using that(3) by simp
        qed
        have main: "n \<in> ZA \<or> n \<in> ZB"
          if tS: "tS = tL \<or> tS = tR" and nS: "n \<in> set (nodeIds tS)" for tS
        proof -
          have cS: "cachesAgree {} h0 (Some re) tS" and dS: "distinct (nodeIds tS)"
            and sS: "set (subtrees tS) \<subseteq> ?S" and zS: "zone h1 tS \<subseteq> zone h1 tL \<union> zone h1 tR"
            and iS: "set (nodeIds tS) \<subseteq> set (nodeIds tL) \<union> set (nodeIds tR)"
            using tS cL cR dL dR by auto
          from inherited_valid [OF dS cS nS] show ?thesis
          proof
            assume V1: "ancestralNodeEvent (h0 n) = Some re \<and> n \<in> visited h0 tS"
            then have q: "q = re" using aq by simp
            have "n \<in> zone h1 tS \<or>
               (\<exists>nl nr. Node n' nl nr \<in> set (subtrees tS) \<and> eventsOnBranch (h0 n') = [] \<and>
                  eventsOnBranch (h1 n') \<noteq> [] \<and> n \<in> zone h1 nl \<union> zone h1 nr)"
              using chain [of n h0 tS h1 n'] V1 e1n CH by blast
            then show ?thesis
            proof
              assume "n \<in> zone h1 tS"
              then show ?thesis using ZAroot [OF q] zS by blast
            next
              assume "\<exists>nl nr. Node n' nl nr \<in> set (subtrees tS) \<and> eventsOnBranch (h0 n') = [] \<and>
                  eventsOnBranch (h1 n') \<noteq> [] \<and> n \<in> zone h1 nl \<union> zone h1 nr"
              then show ?thesis using SH sS by blast
            qed
          next
            assume "\<exists>k kl kr. Node k kl kr \<in> set (subtrees tS) \<and> eventsOnBranch (h0 k) \<noteq> [] \<and>
                k \<noteq> n \<and> k \<in> set (nodeIds tS) \<and> n \<in> visited h0 kl \<union> visited h0 kr \<and>
                ancestralNodeEvent (h0 n) = Some (last (eventsOnBranch (h0 k)))"
            then obtain k kl kr where k: "Node k kl kr \<in> set (subtrees tS)"
              "eventsOnBranch (h0 k) \<noteq> []" "k \<noteq> n" "k \<in> set (nodeIds tS)"
              "n \<in> visited h0 kl \<union> visited h0 kr"
              "ancestralNodeEvent (h0 n) = Some (last (eventsOnBranch (h0 k)))" by blast
            have kS: "Node k kl kr \<in> ?S" using k(1) sS by blast
            have kin: "k \<in> set (nodeIds tL) \<union> set (nodeIds tR)" using k(4) iS by blast
            have q: "q = last (eventsOnBranch (h0 k))" using aq k(6) by simp
            then have qin: "q \<in> set (eventsOnBranch (h0 k))" using k(2) by simp
            have qk: "node q = k" "q \<noteq> re" using own [OF kin qin] by simp_all
            have qe: "q \<noteq> ev" using qk(1) own [OF Nin evN] k(3) by auto
            have sk: "set (subtrees kl) \<union> set (subtrees kr) \<subseteq> ?S"
              using subtrees_trans [OF k(1)] sS by auto
            have "n \<in> zone h1 kl \<union> zone h1 kr \<or>
               (\<exists>nl nr. Node n' nl nr \<in> set (subtrees kl) \<union> set (subtrees kr) \<and>
                  eventsOnBranch (h0 n') = [] \<and> n \<in> zone h1 nl \<union> zone h1 nr)"
              using chain [of n h0 kl h1 n'] chain [of n h0 kr h1 n'] k(5) e1n CH by blast
            then show ?thesis
            proof
              assume z: "n \<in> zone h1 kl \<union> zone h1 kr"
              show ?thesis
              proof (cases "eventsOnBranch (h1 k) \<noteq> [] \<and> last (eventsOnBranch (h1 k)) = q")
                case True
                then have "ZA = insert k (zone h1 kl \<union> zone h1 kr)"
                  using ZA [OF qk(2) qe kS qk(1)] by simp
                then show ?thesis using z by simp
              next
                case False
                have kn': "k = n'"
                proof (rule ccontr)
                  assume "k \<noteq> n'"
                  then have "eventsOnBranch (h1 k) = eventsOnBranch (h0 k)" using lists k(3) by simp
                  then show False using False k(2) q by simp
                qed
                have l1k: "eventsOnBranch (h1 k) = insertEvent pos ev (eventsOnBranch (h0 k))"
                  using l1 kn' nn by simp
                have "last (eventsOnBranch (h1 k)) = ev"
                proof (rule ccontr)
                  assume "last (eventsOnBranch (h1 k)) \<noteq> ev"
                  then have "last (eventsOnBranch (h1 k)) = last (eventsOnBranch (h0 k))"
                    using last_insertEvent [of pos ev "eventsOnBranch (h0 k)"] l1k by simp
                  then show False using False q l1k insertEvent_nonempty [of pos ev] by simp
                qed
                then have "ZB = insert n' (zone h1 kl \<union> zone h1 kr)"
                  using ZB [of kl kr] kS kn' by simp
                then show ?thesis using z by simp
              qed
            next
              assume "\<exists>nl nr. Node n' nl nr \<in> set (subtrees kl) \<union> set (subtrees kr) \<and>
                  eventsOnBranch (h0 n') = [] \<and> n \<in> zone h1 nl \<union> zone h1 nr"
              then show ?thesis using SH sk by blast
            qed
          qed
        qed
        have "n \<in> ZA \<or> n \<in> ZB" using main [of tL] main [of tR] Nin by blast
        then show ?thesis using j(2,3) jn by simp
      qed
    qed
  qed
qed

lemma relocation_previous:
  assumes t: "treeOK m" and e: "eventsOK m" and c: "cachesOK m"
    and ein: "ev \<in> set (eventCollection m)"
  shows "\<exists>q. (if takeWhile (\<lambda>y. y \<noteq> ev) (eventsOnBranch (histories m (eventNode (events m ev)))) = []
              then ancestralNodeEvent (histories m (eventNode (events m ev)))
              else Some (last (takeWhile (\<lambda>y. y \<noteq> ev)
                     (eventsOnBranch (histories m (eventNode (events m ev))))))) = Some q \<and>
           (q = rootEvent m \<or>
            (q \<noteq> ev \<and> (\<exists>k \<in> set (nonRootIds (root (theTree m))).
                q \<in> set (eventsOnBranch (histories m k)))))"
proof -
  let ?N = "eventNode (events m ev)"
  let ?NR = "set (nonRootIds (root (theTree m)))"
  let ?h0 = "histories m"
  let ?xs = "eventsOnBranch (?h0 ?N)"
  let ?tw = "takeWhile (\<lambda>y. y \<noteq> ev) ?xs"
  have w: "wfTree (root (theTree m))" using t unfolding treeOK_def by blast
  obtain \<rho> tL tR where T: "root (theTree m) = Node \<rho> tL tR"
    and d: "distinct (nodeIds (Node \<rho> tL tR))"
    and g: "getLfDesc (root (theTree m)) = tL" "getRtDesc (root (theTree m)) = tR"
    using wfTree_Node [OF w] by blast
  have NR: "?NR = set (nodeIds tL) \<union> set (nodeIds tR)" using g by (simp add: nonRootIds_def)
  have cL: "cachesAgree {} ?h0 (Some (rootEvent m)) tL" and cR: "cachesAgree {} ?h0 (Some (rootEvent m)) tR"
    using c g unfolding cachesOK_def by simp_all
  have dL: "distinct (nodeIds tL)" and dR: "distinct (nodeIds tR)" using d by auto
  have U: "set (eventCollection m) = (\<Union>i \<in> ?NR. set (eventsOnBranch (?h0 i)))"
    using e unfolding eventsOK_def by blast
  have P: "\<And>i k. i \<in> ?NR \<Longrightarrow> k \<in> set (eventsOnBranch (?h0 i)) \<Longrightarrow> eventNode (events m k) = i"
    using e unfolding eventsOK_def by blast
  obtain i where i: "i \<in> ?NR" "ev \<in> set (eventsOnBranch (?h0 i))" using ein U by blast
  have iN: "i = ?N" using P [OF i] by simp
  have Nin: "?N \<in> ?NR" and evN: "ev \<in> set ?xs" using i iN by simp_all
  show ?thesis
  proof (cases "?tw = []")
    case False
    then obtain y ys where tw: "?tw = y # ys" by (cases ?tw) auto
    have 1: "last ?tw \<in> set ?xs" using takeWhile_in [OF tw] tw by simp
    have 2: "last ?tw \<noteq> ev" using takeWhile_last_ne [OF tw] tw by simp
    show ?thesis using False 1 2 Nin by auto
  next
    case True
    have main: "\<exists>q. ancestralNodeEvent (?h0 ?N) = Some q \<and>
        (q = rootEvent m \<or> (q \<noteq> ev \<and> (\<exists>k \<in> ?NR. q \<in> set (eventsOnBranch (?h0 k)))))"
      if tS: "tS = tL \<or> tS = tR" and nS: "?N \<in> set (nodeIds tS)" for tS
    proof -
      have cS: "cachesAgree {} ?h0 (Some (rootEvent m)) tS" and dS: "distinct (nodeIds tS)"
        and iS: "set (nodeIds tS) \<subseteq> ?NR"
        using tS cL cR dL dR NR by auto
      from inherited_valid [OF dS cS nS] show ?thesis
      proof
        assume "ancestralNodeEvent (?h0 ?N) = Some (rootEvent m) \<and> ?N \<in> visited ?h0 tS"
        then show ?thesis by simp
      next
        assume "\<exists>k kl kr. Node k kl kr \<in> set (subtrees tS) \<and> eventsOnBranch (?h0 k) \<noteq> [] \<and>
            k \<noteq> ?N \<and> k \<in> set (nodeIds tS) \<and> ?N \<in> visited ?h0 kl \<union> visited ?h0 kr \<and>
            ancestralNodeEvent (?h0 ?N) = Some (last (eventsOnBranch (?h0 k)))"
        then obtain k where k: "eventsOnBranch (?h0 k) \<noteq> []" "k \<noteq> ?N" "k \<in> set (nodeIds tS)"
          "ancestralNodeEvent (?h0 ?N) = Some (last (eventsOnBranch (?h0 k)))" by blast
        have kin: "k \<in> ?NR" using k(3) iS by blast
        have lin: "last (eventsOnBranch (?h0 k)) \<in> set (eventsOnBranch (?h0 k))" using k(1) by simp
        have "eventNode (events m (last (eventsOnBranch (?h0 k)))) = k" using P [OF kin lin] .
        then have "last (eventsOnBranch (?h0 k)) \<noteq> ev" using k(2) by auto
        then show ?thesis using k(4) kin lin by blast
      qed
    qed
    have "?N \<in> set (nodeIds tL) \<or> ?N \<in> set (nodeIds tR)" using Nin NR by simp
    then show ?thesis using main [of tL] main [of tR] True by auto
  qed
qed

lemma relocation_consistent:
  assumes t: "treeOK m" and e: "eventsOK m" and c: "cachesOK m"
    and ein: "ev \<in> set (eventCollection m)" and r: "relocates m ev m4"
  shows "\<exists>prev m6 m7.
      getLastEventBefore (histories m (eventNode (events m ev))) ev = Inr prev \<and>
      forwardSetBranchHistories (addEventToBranchHistory (eventNode (events m4 ev)) ev m4) prev = Inr m6 \<and>
      forwardSetBranchHistories m6 (Some ev) = Inr m7 \<and>
      cachesOnly (addEventToBranchHistory (eventNode (events m4 ev)) ev m4) m7 \<and>
      treeOK m7 \<and> eventsOK m7 \<and> cachesOK m7 \<and>
      histories m7 (nodeId (root (theTree m))) = histories m (nodeId (root (theTree m)))"
proof -
  let ?N = "eventNode (events m ev)"
  let ?N' = "eventNode (events m4 ev)"
  define m5 where "m5 = addEventToBranchHistory ?N' ev m4"
  let ?T = "root (theTree m)"
  let ?NR = "set (nonRootIds ?T)"
  let ?h0 = "histories m"
  define h1 where "h1 = histories m5"
  let ?xs = "eventsOnBranch (?h0 ?N)"
  let ?tw = "takeWhile (\<lambda>y. y \<noteq> ev) ?xs"
  let ?re = "rootEvent m"
  note B0 = relocation_basics [OF e ein r, folded m5_def]
  note B = B0 [folded h1_def]
  have e5: "eventsOK m5" unfolding m5_def by (rule relocation_eventsOK [OF t e ein r])
  have t5: "treeOK m5" using t B(4) unfolding treeOK_def by simp
  have w: "wfTree ?T" using t unfolding treeOK_def by blast
  obtain \<rho> tL tR where T: "?T = Node \<rho> tL tR" and rho: "nodeId ?T = \<rho>"
    and d: "distinct (nodeIds (Node \<rho> tL tR))"
    and g: "getLfDesc ?T = tL" "getRtDesc ?T = tR"
    using wfTree_Node [OF w] by blast
  have NR: "?NR = set (nodeIds tL) \<union> set (nodeIds tR)" using g by (simp add: nonRootIds_def)
  have P: "\<And>i k. i \<in> ?NR \<Longrightarrow> k \<in> set (eventsOnBranch (?h0 i)) \<Longrightarrow>
      eventNode (events m k) = i \<and> k \<noteq> ?re"
    using e unfolding eventsOK_def by blast
  have N'in: "?N' \<in> ?NR" and oth: "\<And>k. k \<noteq> ev \<Longrightarrow> events m4 k = events m k"
    using r unfolding relocates_def by blast+
  have ev_re: "ev \<noteq> ?re" using P [OF B(1) B(2)] by simp
  obtain q where q: "(if ?tw = [] then ancestralNodeEvent (?h0 ?N) else Some (last ?tw)) = Some q"
    and qv: "q = ?re \<or> (q \<noteq> ev \<and> (\<exists>k \<in> ?NR. q \<in> set (eventsOnBranch (?h0 k))))"
    using relocation_previous [OF t e c ein] by blast
  have prev: "getLastEventBefore (?h0 ?N) ev = Inr (Some q)"
    using getLastEventBefore_Inr [OF B(2)] q by simp
  have q5: "q = rootEvent m5 \<or> eventNode (events m5 q) \<in> set (nonRootIds (root (theTree m5)))"
  proof (cases "q = ?re")
    case True
    then show ?thesis using B(5) by simp
  next
    case False
    then obtain k where k: "q \<noteq> ev" "k \<in> ?NR" "q \<in> set (eventsOnBranch (?h0 k))" using qv by blast
    have "eventNode (events m5 q) = k" using B(6) oth [OF k(1)] P [OF k(2,3)] by simp
    then show ?thesis using k(2) B(4) by simp
  qed
  have w5: "wfTree (root (theTree m5))" using w B(4) by simp
  have re5: "eventNode (events m5 (rootEvent m5)) = nodeId (root (theTree m5))"
    using e5 unfolding eventsOK_def by blast
  define hA where "hA = forwardSetSpec m5 q"
  define mA where "mA = m5\<lparr>histories := hA\<rparr>"
  define ZA where "ZA = forwardSetZone m5 q"
  have FA: "forwardSetBranchHistories m5 (Some q) = Inr mA"
    unfolding mA_def hA_def by (rule forwardSet_repairs(1) [OF w5 re5 q5])
  have RA0: "repairs (nodeId (root (theTree m5))) (getLfDesc (root (theTree m5)))
       (getRtDesc (root (theTree m5))) h1 hA ZA"
    unfolding h1_def hA_def ZA_def by (rule forwardSet_repairs(2) [OF w5 re5 q5])
  have RA: "repairs \<rho> tL tR h1 hA ZA" using RA0 B(4) rho g by simp
  have TA: "theTree mA = theTree m" "rootEvent mA = ?re" "events mA = events m4"
    "histories mA = hA"
    using B(4,5,6) by (simp_all add: mA_def)
  have wA: "wfTree (root (theTree mA))" using w TA(1) by simp
  have reA: "eventNode (events mA (rootEvent mA)) = nodeId (root (theTree mA))"
    using re5 TA(1,2,3) B(4,5,6) by simp
  have evA: "ev = rootEvent mA \<or> eventNode (events mA ev) \<in> set (nonRootIds (root (theTree mA)))"
    using N'in TA(1,3) by simp
  define hB where "hB = forwardSetSpec mA ev"
  define mB where "mB = mA\<lparr>histories := hB\<rparr>"
  define ZB where "ZB = forwardSetZone mA ev"
  have FB: "forwardSetBranchHistories mA (Some ev) = Inr mB"
    unfolding mB_def hB_def by (rule forwardSet_repairs(1) [OF wA reA evA])
  have RB0: "repairs (nodeId (root (theTree mA))) (getLfDesc (root (theTree mA)))
       (getRtDesc (root (theTree mA))) (histories mA) hB ZB"
    unfolding hB_def ZB_def by (rule forwardSet_repairs(2) [OF wA reA evA])
  have RB: "repairs \<rho> tL tR hA hB ZB" using RB0 TA(1,4) rho g by simp
  have evAeq: "\<And>j. eventsOnBranch (hA j) = eventsOnBranch (h1 j)"
    using RA unfolding repairs_def by blast
  have evBeq: "\<And>j. eventsOnBranch (hB j) = eventsOnBranch (h1 j)"
    using RB evAeq unfolding repairs_def by simp
  have inv0: "cachesAgreeRoot {} ?h0 \<rho> tL tR"
    and r0: "nodeEvent (?h0 \<rho>) = Some ?re"
    using c rho g unfolding cachesOK_Root by simp_all
  have cL: "cachesAgree {} ?h0 (Some ?re) tL" and cR: "cachesAgree {} ?h0 (Some ?re) tR"
    using c g unfolding cachesOK_def by simp_all
  obtain pos where l1: "eventsOnBranch (h1 ?N') = insertEvent pos ev
      (if ?N' = ?N then remove1 ev ?xs else eventsOnBranch (?h0 ?N'))"
    using B(11) by blast
  have dT: "distinct (nodeIds ?T)" using d T by simp
  have subT: "set (subtrees tL) \<union> set (subtrees tR) \<subseteq> set (subtrees ?T)" using T by auto
  have zB: "ZB = insert ?N' (zone h1 l \<union> zone h1 r)"
    if s: "Node ?N' l r \<in> set (subtrees tL) \<union> set (subtrees tR)"
      and la: "last (eventsOnBranch (h1 ?N')) = ev" for l r
  proof -
    have f: "findNode (root (theTree mA)) (eventNode (events mA ev)) = Node ?N' l r"
      using findNode_of_subtree [OF dT] s subT TA(1,3) by auto
    have ne: "eventsOnBranch (hA ?N') \<noteq> []" using evAeq l1 insertEvent_nonempty by simp
    have gl: "getLastEvent (histories mA ?N') = Some ev"
      using ne la evAeq TA(4) by (simp add: getLastEvent_def)
    have x: "ev \<noteq> rootEvent mA" using ev_re TA(2) by simp
    have "ZB = insert ?N' (zone (histories mA) l \<union> zone (histories mA) r)"
      unfolding ZB_def by (rule forwardSetZone_fired [OF x f gl])
    moreover have "zone hA l = zone h1 l" "zone hA r = zone h1 r"
      by (rule zone_cong, rule evAeq)+
    ultimately show ?thesis using TA(4) by simp
  qed
  have zA: "ZA = insert k (zone h1 l \<union> zone h1 r)"
    if "q \<noteq> ?re" "q \<noteq> ev" and s: "Node k l r \<in> set (subtrees tL) \<union> set (subtrees tR)"
      and nq: "eventNode (events m q) = k"
      and ne: "eventsOnBranch (h1 k) \<noteq> []" and la: "last (eventsOnBranch (h1 k)) = q" for k l r
  proof -
    have eq: "eventNode (events m5 q) = k" using B(6) oth [OF that(2)] nq by simp
    have f: "findNode (root (theTree m5)) (eventNode (events m5 q)) = Node k l r"
      using findNode_of_subtree [OF dT] s subT B(4) eq by auto
    have gl: "getLastEvent (histories m5 k) = Some q"
      using ne la by (simp add: getLastEvent_def h1_def)
    have x: "q \<noteq> rootEvent m5" using that(1) B(5) by simp
    show ?thesis unfolding ZA_def h1_def by (rule forwardSetZone_fired [OF x f gl])
  qed
  have zAroot: "ZA = zone h1 tL \<union> zone h1 tR" if "q = ?re"
    using forwardSetZone_root [of m5] that B(4,5) g by (simp add: ZA_def h1_def)
  have Nin: "?N \<in> set (nodeIds tL) \<union> set (nodeIds tR)" using B(1) NR by simp
  have N'in2: "?N' \<in> set (nodeIds tL) \<union> set (nodeIds tR)" using N'in NR by simp
  have own: "\<And>k a. k \<in> set (nodeIds tL) \<union> set (nodeIds tR) \<Longrightarrow>
      a \<in> set (eventsOnBranch (?h0 k)) \<Longrightarrow> eventNode (events m a) = k \<and> a \<noteq> ?re"
    using P NR by simp
  have cover: "eventsOnBranch (h1 j) \<noteq> [] \<and> nodeEvent (?h0 j) = Some (last (eventsOnBranch (h1 j)))"
    if "j = ?N \<or> j = ?N'" "j \<notin> ZA" "j \<notin> ZB" for j
    by (rule relocation_cover [where node = "\<lambda>a. eventNode (events m a)" and re = ?re
          and q = q and ZA = ZA and ZB = ZB and ?h0.0 = ?h0 and ?h1.0 = h1 and tL = tL and tR = tR
          and n = ?N and n' = ?N' and ev = ev and pos = pos,
          OF d cL cR Nin N'in2 B(2) B(3) B(10) l1 B(12) q own zB zA zAroot that])
  have cB: "cachesAgreeRoot {} hB \<rho> tL tR"
    by (rule relocation_repaired [where ?h0.0 = ?h0 and ?h1.0 = h1 and n = ?N and n' = ?N',
          OF inv0 B(9) B(10) RA RB cover])
  have rB: "hB \<rho> = h1 \<rho>" using RA RB unfolding repairs_def by simp
  have rootB: "nodeEvent (hB \<rho>) = Some ?re" using rB B(9) r0 by simp
  have mB: "mB = m5\<lparr>histories := hB\<rparr>" by (simp add: mB_def mA_def)
  have coB: "cachesOnly m5 mB" unfolding mB
    by (rule cachesOnly_histories) (simp add: evBeq h1_def [symmetric])
  have tB: "treeOK mB" and eB: "eventsOK mB"
    using cachesOnly_OK(1,2) [OF coB] t5 e5 by simp_all
  have TB: "theTree mB = theTree m" "rootEvent mB = ?re" "histories mB = hB"
    using B(4,5) by (simp_all add: mB)
  have cOB: "cachesOK mB"
    unfolding cachesOK_Root TB using cB rootB rho g by simp
  have h4: "histories m4 = histories (popEventOffBranchHistory ?N ev m)"
    using r unfolding relocates_def by blast
  have rnr: "\<rho> \<notin> ?NR" using nodeId_notin_nonRoot [OF w] rho by simp
  then have "\<rho> \<noteq> ?N" "\<rho> \<noteq> ?N'" using B(1) N'in by auto
  then have "h1 \<rho> = ?h0 \<rho>"
    by (simp add: h1_def m5_def addEventToBranchHistory_def h4 popEventOffBranchHistory_def)
  then have fr: "histories mB (nodeId ?T) = ?h0 (nodeId ?T)" using rB TB(3) rho by simp
  show ?thesis using prev FA FB coB tB eB cOB fr unfolding m5_def by blast
qed

lemma consistent_core:
  assumes "sameCore m m'" "treeOK m" "eventsOK m" "cachesOK m"
    and "\<And>e. lastEventModified m' = Some e \<Longrightarrow> e \<in> set (eventCollection m)"
  shows "consistent m'"
proof -
  have "eventCollection m' = eventCollection m" using assms(1) by (simp add: sameCore_def)
  then have "lastOK m'" using assms(5) by (simp add: lastOK_def)
  then show ?thesis using sameCore_OK [OF assms(1)] assms(2-4) by (simp add: consistent_def)
qed

lemma sameCore_setMean: "sameCore m (setMeanBranchParameters m)"
  by (simp add: sameCore_def setMeanBranchParameters_def)

lemma insertion_step:
  assumes k: "consistent m" and x: "x \<in> set (nonRootIds (root (theTree m)))"
    and s: "sameCore (insertedRecord x t ps m) m3"
    and f: "forwardSetBranchHistories m3 (Some (nextEvent m)) = Inr m4"
  shows "treeOK m4 \<and> eventsOK m4 \<and> cachesOK m4 \<and> nextEvent m \<in> set (eventCollection m4) \<and>
         eventCollection m4 = insertCollection (nextEvent m) (eventCollection m)"
proof -
  have t: "treeOK m" and e: "eventsOK m" and c: "cachesOK m"
    using k by (simp_all add: consistent_def)
  obtain m4' where m4': "forwardSetBranchHistories m3 (Some (nextEvent m)) = Inr m4'"
    "cachesOnly m3 m4'" "treeOK m4'" "eventsOK m4'" "cachesOK m4'"
    "nextEvent m \<in> set (eventCollection m4')"
    using insertion_consistent [OF t e c x s] by blast
  have eq: "m4' = m4" using m4'(1) f by simp
  have "eventCollection m4 = eventCollection m3" using cachesOnly_fields(4) [OF m4'(2)] eq by simp
  also have "\<dots> = eventCollection (insertedRecord x t ps m)" using s by (simp add: sameCore_def)
  also have "\<dots> = insertCollection (nextEvent m) (eventCollection m)"
    by (simp add: insertedRecord_def Let_def)
  finally show ?thesis using m4' eq by simp
qed

lemma lastOK_insert:
  "lastOK m \<Longrightarrow> eventCollection m4 = insertCollection e (eventCollection m) \<Longrightarrow>
   lastEventModified m' = lastEventModified m \<Longrightarrow> eventCollection m' = eventCollection m4 \<Longrightarrow>
   lastOK m'"
  by (auto simp: lastOK_def set_insertCollection)

lemma initializeRecord_consistent:
  assumes k: "consistent m" and ok: "initializeRecord species1 species2 eTime ps m = Inr m'"
  shows "consistent m'"
proof -
  have t: "treeOK m" and e: "eventsOK m" and c: "cachesOK m" and l: "lastOK m"
    using k by (simp_all add: consistent_def)
  obtain x where x: "resolveNode (theTree m) species1 species2 = Inr x"
    using ok by (cases "resolveNode (theTree m) species1 species2")
      (auto simp: initializeRecord_def)
  have w: "wfTree (root (theTree m))" using t unfolding treeOK_def by blast
  have xin: "x \<in> set (nodeIds (root (theTree m)))"
    using x t unfolding treeOK_def resolveNode_def
    by (auto split: if_splits option.splits)
  show ?thesis
  proof (cases "isNode (root (theTree m)) x")
    case True
    have m': "m' = m\<lparr>readParameters := ps,
        events := (events m)(rootEvent m := (events m (rootEvent m))\<lparr>eventParams := ps\<rparr>)\<rparr>"
      using initializeRecord_root [OF x True, of eTime ps] ok by simp
    have T: "theTree m' = theTree m" "histories m' = histories m" "rootEvent m' = rootEvent m"
      "nextEvent m' = nextEvent m" "eventCollection m' = eventCollection m"
      "lastEventModified m' = lastEventModified m"
      "\<And>k. eventNode (events m' k) = eventNode (events m k)"
      "\<And>k. oldEventNode (events m' k) = oldEventNode (events m k)"
      by (simp_all add: m')
    have "treeOK m'" using t unfolding treeOK_def T by simp
    moreover have "eventsOK m'" using e unfolding eventsOK_def T by simp
    moreover have "cachesOK m'" using c unfolding cachesOK_def T by simp
    moreover have "lastOK m'" using l unfolding lastOK_def T by simp
    ultimately show ?thesis by (simp add: consistent_def)
  next
    case False
    let ?t = "rd (mapStart (theTree m) x + rd (time (theTree m) x - eTime))"
    let ?mi = "insertedRecord x ?t ps m"
    obtain \<rho> tL tR where T: "root (theTree m) = Node \<rho> tL tR"
      and g: "getLfDesc (root (theTree m)) = tL" "getRtDesc (root (theTree m)) = tR"
      using wfTree_Node [OF w] by blast
    have xnr: "x \<in> set (nonRootIds (root (theTree m)))"
      using xin False T g by (auto simp: nonRootIds_def)
    have E: "(case forwardSetBranchHistories ?mi (Some (nextEvent m)) of
            Inl e \<Rightarrow> Inl (Propagation e)
          | Inr m4 \<Rightarrow> Inr (setMeanBranchParameters m4)) = Inr m'"
      using initializeRecord_insert [OF x False, of eTime ps] ok by simp
    obtain m4 where m4: "forwardSetBranchHistories ?mi (Some (nextEvent m)) = Inr m4"
      using E by (cases "forwardSetBranchHistories ?mi (Some (nextEvent m))") auto
    have m': "m' = setMeanBranchParameters m4" using E m4 by simp
    have s: "sameCore ?mi ?mi" by (simp add: sameCore_def)
    note I = insertion_step [OF k xnr s m4]
    have co: "cachesOnly ?mi m4" by (rule fSBH_cachesOnly [OF m4])
    have lm: "lastEventModified m' = lastEventModified m"
      using cachesOnly_fields(6) [OF co] by (simp add: m' setMeanBranchParameters_def insertedRecord_def Let_def)
    have "lastOK m'"
      by (rule lastOK_insert [OF l _ lm, of m4 "nextEvent m"])
        (use I in \<open>simp_all add: m' setMeanBranchParameters_def\<close>)
    then show ?thesis
      using I sameCore_OK [OF sameCore_setMean [of m4]] by (simp add: consistent_def m')
  qed
qed

lemma addEventToTreeAt_consistent:
  assumes k: "consistent m" and ok: "addEventToTreeAt x m = Inr m'"
  shows "consistent m'"
proof -
  obtain ps pos where rp: "randomParameters m (rngDraws m) (rngPos m) = (ps, pos)"
    by (cases "randomParameters m (rngDraws m) (rngPos m)") auto
  define mm where "mm = m\<lparr>rngPos := pos\<rparr>"
  define n where "n = mapEventToTree (theTree m) x"
  define m3 where "m3 = (insertedRecord n x ps mm)\<lparr>readParameters := readParameters m\<rparr>"
  have sc: "sameCore m mm" by (simp add: sameCore_def mm_def)
  have kk: "consistent mm"
    using k sameCore_OK [OF sc] by (simp add: consistent_def lastOK_def mm_def)
  have nx: "nextEvent mm = nextEvent m" "theTree mm = theTree m" "eventCollection mm = eventCollection m"
    "lastEventModified mm = lastEventModified m"
    by (simp_all add: mm_def)
  have t: "treeOK m" using k by (simp add: consistent_def)
  have nin: "n \<in> set (nonRootIds (root (theTree mm)))"
    using t unfolding treeOK_def n_def nx by blast
  have s: "sameCore (insertedRecord n x ps mm) m3" by (simp add: sameCore_def m3_def)
  have E: "addEventToTreeAt x m =
      (case forwardSetBranchHistories m3 (Some (nextEvent m)) of
         Inl e \<Rightarrow> Inl e
       | Inr m4 \<Rightarrow> Inr ((setMeanBranchParameters m4)\<lparr>lastEventModified := Some (nextEvent m)\<rparr>))"
    unfolding m3_def mm_def n_def
    by (simp add: addEventToTreeAt_def newBranchEventWithRandomParameters_def rp newBranchEvent_def
        addEventToBranchHistory_def insertedRecord_def Let_def
        del: forwardSetBranchHistories.simps)
  obtain m4 where m4: "forwardSetBranchHistories m3 (Some (nextEvent m)) = Inr m4"
    using E ok by (cases "forwardSetBranchHistories m3 (Some (nextEvent m))") auto
  have m': "m' = (setMeanBranchParameters m4)\<lparr>lastEventModified := Some (nextEvent m)\<rparr>"
    using E ok m4 by simp
  note I = insertion_step [OF kk nin s, unfolded nx, OF m4]
  have sc': "sameCore m4 m'" by (simp add: sameCore_def m' setMeanBranchParameters_def)
  show ?thesis
    by (rule consistent_core [OF sc']) (use I in \<open>simp_all add: m' set_insertCollection\<close>)
qed

lemma addEventToTree_consistent:
  assumes k: "consistent m" and ok: "addEventToTree m = Inr m'"
  shows "consistent m'"
proof -
  obtain i l r where T: "root (theTree m) = Node i l r"
    using ok by (cases "root (theTree m)") (auto simp: addEventToTree_def)
  define x where "x = mapStart (theTree m) i + rngDraws m (rngPos m) *
      (totalMapLength (theTree m) - mapStart (theTree m) i)"
  define m1 where "m1 = m\<lparr>rngPos := Suc (rngPos m)\<rparr>"
  have E: "addEventToTree m = addEventToTreeAt x m1"
    by (simp add: addEventToTree_def T uniformRvRange_def Let_def x_def m1_def)
  have sc: "sameCore m m1" by (simp add: sameCore_def m1_def)
  have "consistent m1"
    using k sameCore_OK [OF sc] by (simp add: consistent_def lastOK_def m1_def)
  then show ?thesis using addEventToTreeAt_consistent E ok by metis
qed

lemma registry_node:
  assumes e: "eventsOK m" and ein: "ev \<in> set (eventCollection m)"
  shows "eventNode (events m ev) \<in> set (nonRootIds (root (theTree m)))"
    and "oldEventNode (events m ev) \<in> set (nonRootIds (root (theTree m)))"
    and "ev \<in> set (eventsOnBranch (histories m (eventNode (events m ev))))"
proof -
  have U: "set (eventCollection m) =
        (\<Union>i \<in> set (nonRootIds (root (theTree m))). set (eventsOnBranch (histories m i)))"
    using e unfolding eventsOK_def by blast
  have P: "\<And>i k. i \<in> set (nonRootIds (root (theTree m))) \<Longrightarrow>
      k \<in> set (eventsOnBranch (histories m i)) \<Longrightarrow>
      eventNode (events m k) = i \<and> oldEventNode (events m k) \<in> set (nonRootIds (root (theTree m)))"
    using e unfolding eventsOK_def by blast
  obtain i where i: "i \<in> set (nonRootIds (root (theTree m)))"
    "ev \<in> set (eventsOnBranch (histories m i))"
    using ein U by blast
  have iN: "eventNode (events m ev) = i" using P [OF i] by simp
  show "eventNode (events m ev) \<in> set (nonRootIds (root (theTree m)))" using i iN by simp
  show "oldEventNode (events m ev) \<in> set (nonRootIds (root (theTree m)))" using P [OF i] by simp
  show "ev \<in> set (eventsOnBranch (histories m (eventNode (events m ev))))" using i iN by simp
qed

lemma relocate_relocates:
  assumes t: "treeOK m" and e: "eventsOK m" and ein: "ev \<in> set (eventCollection m)"
    and s: "sameCore m m2"
  shows "relocates m ev
           (relocate newPos ev
              ((popEventOffBranchHistory (eventNode (events m2 ev)) ev m2)\<lparr>rngPos := p\<rparr>))"
proof -
  have 1: "mapEventToTree (theTree m) newPos \<in> set (nonRootIds (root (theTree m)))"
    using t unfolding treeOK_def by blast
  note 2 = registry_node(1) [OF e ein]
  show ?thesis
    using s 1 2
    by (simp add: relocates_def relocate_def popEventOffBranchHistory_def sameCore_def)
qed

lemma revert_relocates:
  assumes e: "eventsOK m" and ein: "ev \<in> set (eventCollection m)"
  shows "relocates m ev
           (revertOldMapPosition ev (popEventOffBranchHistory (eventNode (events m ev)) ev m))"
  using registry_node(2) [OF e ein]
  by (simp add: relocates_def revertOldMapPosition_def popEventOffBranchHistory_def)

lemma relocation_step:
  assumes k: "consistent m" and ein: "ev \<in> set (eventCollection m)" and r: "relocates m ev m4"
    and p: "getLastEventBefore (histories m (eventNode (events m ev))) ev = Inr prev"
    and f6: "forwardSetBranchHistories (addEventToBranchHistory (eventNode (events m4 ev)) ev m4) prev
              = Inr m6"
    and f7: "forwardSetBranchHistories m6 (Some ev) = Inr m7"
  shows "treeOK m7 \<and> eventsOK m7 \<and> cachesOK m7 \<and> eventCollection m7 = eventCollection m \<and>
         lastEventModified m7 = lastEventModified m4 \<and>
         cachesOnly (addEventToBranchHistory (eventNode (events m4 ev)) ev m4) m7 \<and>
         histories m7 (nodeId (root (theTree m))) = histories m (nodeId (root (theTree m)))"
proof -
  have t: "treeOK m" and e: "eventsOK m" and c: "cachesOK m"
    using k by (simp_all add: consistent_def)
  let ?m5 = "addEventToBranchHistory (eventNode (events m4 ev)) ev m4"
  obtain prev' m6' m7' where R:
    "getLastEventBefore (histories m (eventNode (events m ev))) ev = Inr prev'"
    "forwardSetBranchHistories ?m5 prev' = Inr m6'"
    "forwardSetBranchHistories m6' (Some ev) = Inr m7'"
    "cachesOnly ?m5 m7'" "treeOK m7'" "eventsOK m7'" "cachesOK m7'"
    "histories m7' (nodeId (root (theTree m))) = histories m (nodeId (root (theTree m)))"
    using relocation_consistent [OF t e c ein r] by blast
  have "prev' = prev" using R(1) p by simp
  then have "m6' = m6" using R(2) f6 by simp
  then have eq: "m7' = m7" using R(3) f7 by simp
  have ec: "eventCollection m7 = eventCollection m"
    using cachesOnly_fields(4) [OF R(4)] eq r
    by (simp add: relocates_def addEventToBranchHistory_def)
  have lm: "lastEventModified m7 = lastEventModified m4"
    using cachesOnly_fields(6) [OF R(4)] eq by (simp add: addEventToBranchHistory_def)
  show ?thesis using R(4-8) eq ec lm by simp
qed

lemma revertMovedEventToPrevious_consistent:
  assumes k: "consistent m" and ok: "revertMovedEventToPrevious m = Inr m'"
  shows "consistent m'"
proof -
  have e: "eventsOK m" and l: "lastOK m" using k by (simp_all add: consistent_def)
  obtain ev where ev: "lastEventModified m = Some ev"
    using ok by (cases "lastEventModified m") (auto simp: revertMovedEventToPrevious_def)
  have ein: "ev \<in> set (eventCollection m)" using l ev by (simp add: lastOK_def)
  define m2 where
    "m2 = revertOldMapPosition ev (popEventOffBranchHistory (eventNode (events m ev)) ev m)"
  have r: "relocates m ev m2" unfolding m2_def by (rule revert_relocates [OF e ein])
  let ?m3 = "addEventToBranchHistory (eventNode (events m2 ev)) ev m2"
  have E: "revertMovedEventToPrevious m =
     (case getLastEventBefore (histories m (eventNode (events m ev))) ev of
        Inl e \<Rightarrow> Inl e
      | Inr newLastEvent \<Rightarrow>
          (case forwardSetBranchHistories ?m3 newLastEvent of
             Inl e \<Rightarrow> Inl e
           | Inr m4 \<Rightarrow>
               (case forwardSetBranchHistories m4 (Some ev) of
                  Inl e \<Rightarrow> Inl e
                | Inr m5 \<Rightarrow> Inr (setMeanBranchParameters (m5\<lparr>lastEventModified := None\<rparr>)))))"
    unfolding m2_def
    by (cases "getLastEventBefore (histories m (eventNode (events m ev))) ev")
      (simp_all add: revertMovedEventToPrevious_def ev Let_def del: forwardSetBranchHistories.simps)
  obtain prev where p: "getLastEventBefore (histories m (eventNode (events m ev))) ev = Inr prev"
    using E ok by (cases "getLastEventBefore (histories m (eventNode (events m ev))) ev") auto
  obtain m4 where f4: "forwardSetBranchHistories ?m3 prev = Inr m4"
    using E ok p by (cases "forwardSetBranchHistories ?m3 prev") auto
  obtain m5 where f5: "forwardSetBranchHistories m4 (Some ev) = Inr m5"
    using E ok p f4 by (cases "forwardSetBranchHistories m4 (Some ev)") auto
  have m': "m' = setMeanBranchParameters (m5\<lparr>lastEventModified := None\<rparr>)"
    using E ok p f4 f5 by simp
  note S = relocation_step [OF k ein r p f4 f5]
  have sc: "sameCore m5 m'" by (simp add: sameCore_def m' setMeanBranchParameters_def)
  show ?thesis
    by (rule consistent_core [OF sc]) (use S in \<open>simp_all add: m' setMeanBranchParameters_def\<close>)
qed

lemma eventMove_consistent:
  assumes k: "consistent m" and ok: "eventMove local m = Inr m'"
  shows "consistent m'"
proof (cases "eventCollection m = []")
  case True
  then have m': "m' = setMeanBranchParameters m"
    using ok by (simp add: eventMove_def getNumberOfEvents_def)
  have "lastEventModified m' = lastEventModified m" by (simp add: m' setMeanBranchParameters_def)
  then show ?thesis
    using k consistent_core [OF sameCore_setMean [of m]] unfolding m'
    by (simp add: consistent_def lastOK_def)
next
  case False
  have t: "treeOK m" and e: "eventsOK m" using k by (simp_all add: consistent_def)
  have n: "getNumberOfEvents m > 0" using False by (simp add: getNumberOfEvents_def)
  obtain ev m1 where c: "chooseEventAtRandom m = Inr (ev, m1)"
    using ok n by (cases "chooseEventAtRandom m") (auto simp: eventMove_def)
  have ein: "ev \<in> set (eventCollection m)" and m1: "m1 = m\<lparr>rngPos := Suc (rngPos m)\<rparr>"
    using choose_Inr [OF c] by simp_all
  define m2 where "m2 = m1\<lparr>lastEventModified := Some ev\<rparr>"
  define m3 where "m3 = popEventOffBranchHistory (eventNode (events m2 ev)) ev m2"
  define newPos where "newPos = (if local
      then mapTime (events m3 ev) + rd (rngDraws m3 (rngPos m3) * scale m3 - rd (0.5 * scale m3))
      else rngDraws m3 (rngPos m3) * totalMapLength (theTree m3))"
  define m4 where "m4 = relocate newPos ev (m3\<lparr>rngPos := Suc (rngPos m3)\<rparr>)"
  have sc2: "sameCore m m2" by (simp add: sameCore_def m2_def m1)
  have r: "relocates m ev m4"
    unfolding m4_def m3_def by (rule relocate_relocates [OF t e ein sc2])
  have h1: "histories m1 = histories m" "events m1 = events m" by (simp_all add: m1)
  let ?m5 = "addEventToBranchHistory (eventNode (events m4 ev)) ev m4"
  have E: "eventMove local m =
     (case getLastEventBefore (histories m (eventNode (events m ev))) ev of
        Inl e \<Rightarrow> Inl e
      | Inr previousEvent \<Rightarrow>
          (case forwardSetBranchHistories ?m5 previousEvent of
             Inl e \<Rightarrow> Inl e
           | Inr m6 \<Rightarrow>
               (case forwardSetBranchHistories m6 (Some ev) of
                  Inl e \<Rightarrow> Inl e
                | Inr m7 \<Rightarrow> Inr (setMeanBranchParameters m7))))"
    using n
    by (cases "getLastEventBefore (histories m (eventNode (events m ev))) ev"; cases local)
      (simp_all add: eventMove_def Let_def c h1 m4_def newPos_def m3_def m2_def uniformRvRange_def
        moveEventLocal_def moveEventGlobal_def del: forwardSetBranchHistories.simps)
  obtain prev where p: "getLastEventBefore (histories m (eventNode (events m ev))) ev = Inr prev"
    using E ok by (cases "getLastEventBefore (histories m (eventNode (events m ev))) ev") auto
  obtain m6 where f6: "forwardSetBranchHistories ?m5 prev = Inr m6"
    using E ok p by (cases "forwardSetBranchHistories ?m5 prev") auto
  obtain m7 where f7: "forwardSetBranchHistories m6 (Some ev) = Inr m7"
    using E ok p f6 by (cases "forwardSetBranchHistories m6 (Some ev)") auto
  have m': "m' = setMeanBranchParameters m7" using E ok p f6 f7 by simp
  note S = relocation_step [OF k ein r p f6 f7]
  have l4: "lastEventModified m4 = Some ev"
    by (simp add: m4_def m3_def m2_def relocate_def popEventOffBranchHistory_def)
  have sc: "sameCore m7 m'" by (simp add: sameCore_def m' setMeanBranchParameters_def)
  show ?thesis
    by (rule consistent_core [OF sc])
      (use S l4 ein in \<open>simp_all add: m' setMeanBranchParameters_def\<close>)
qed

lemma cachesAgree_flat:
  assumes "parentsAgree T a p" "cachesAgree {} h (nodeEvent (h a)) p" "i \<in> set (nodeIds p)"
  shows "if eventsOnBranch (h i) \<noteq> []
         then nodeEvent (h i) = Some (last (eventsOnBranch (h i)))
         else (case getAnc T i of None \<Rightarrow> True | Some b \<Rightarrow> nodeEvent (h i) = nodeEvent (h b))"
  using assms
proof (induction p arbitrary: a)
  case NULL
  then show ?case by simp
next
  case (Node j l r)
  have anc: "getAnc T j = Some a" and pl: "parentsAgree T j l" and pr: "parentsAgree T j r"
    using Node.prems(1) by simp_all
  have own: "nodeEvent (h j) = (if eventsOnBranch (h j) = [] then nodeEvent (h a)
                                else Some (last (eventsOnBranch (h j))))"
    and cl: "cachesAgree {} h (nodeEvent (h j)) l" and cr: "cachesAgree {} h (nodeEvent (h j)) r"
    using Node.prems(2) unfolding cachesAgree.simps by blast+
  consider "i = j" | "i \<in> set (nodeIds l)" | "i \<in> set (nodeIds r)" using Node.prems(3) by auto
  then show ?case
  proof cases
    case 1
    then show ?thesis using anc own by simp
  next
    case 2
    then show ?thesis using Node.IH(1) [OF pl cl] by simp
  next
    case 3
    then show ?thesis using Node.IH(2) [OF pr cr] by simp
  qed
qed

lemma consistent_invariant:
  assumes k: "consistent m"
  shows "nodeEventInvariant m"
proof -
  let ?T = "root (theTree m)"
  let ?h = "histories m"
  have t: "treeOK m" and e: "eventsOK m" and c: "cachesOK m"
    using k by (simp_all add: consistent_def)
  have w: "wfTree ?T" using t unfolding treeOK_def by blast
  obtain \<rho> tL tR where T: "?T = Node \<rho> tL tR" and rho: "nodeId ?T = \<rho>"
    and d: "distinct (nodeIds (Node \<rho> tL tR))"
    and g: "getLfDesc ?T = tL" "getRtDesc ?T = tR"
    using wfTree_Node [OF w] by blast
  have dT: "distinct (nodeIds ?T)" using d T by simp
  have "Node \<rho> tL tR \<in> set (subtrees ?T)" using T by simp
  then have pa: "parentsAgree ?T \<rho> tL" "parentsAgree ?T \<rho> tR"
    using parentsAgree_children [OF dT] by blast+
  have r0: "nodeEvent (?h \<rho>) = Some (rootEvent m)"
    and cL: "cachesAgree {} ?h (Some (rootEvent m)) tL"
    and cR: "cachesAgree {} ?h (Some (rootEvent m)) tR"
    using c rho g unfolding cachesOK_def by simp_all
  have e0: "eventsOnBranch (?h \<rho>) = []" using e rho unfolding eventsOK_def by simp
  have a0: "getAnc ?T \<rho> = None"
  proof -
    have "\<rho> \<notin> set (nodeIds tL)" "\<rho> \<notin> set (nodeIds tR)" using d by auto
    then have "getAnc tL \<rho> = None" "getAnc tR \<rho> = None" "\<not> isNode tL \<rho>" "\<not> isNode tR \<rho>"
      using getAnc_notin isNode_ids by blast+
    then show ?thesis by (simp add: T)
  qed
  have "if eventsOnBranch (?h i) \<noteq> []
         then nodeEvent (?h i) = Some (last (eventsOnBranch (?h i)))
         else (case getAnc ?T i of None \<Rightarrow> True | Some b \<Rightarrow> nodeEvent (?h i) = nodeEvent (?h b))"
    if iT: "i \<in> set (nodeIds ?T)" for i
  proof -
    have "i = \<rho> \<or> i \<in> set (nodeIds tL) \<or> i \<in> set (nodeIds tR)" using iT T by auto
    then consider "i = \<rho>" | "i \<in> set (nodeIds tL)" | "i \<in> set (nodeIds tR)" by blast
    then show ?thesis
    proof cases
      case 1
      then show ?thesis using e0 a0 by simp
    next
      case 2
      show ?thesis by (rule cachesAgree_flat [OF pa(1) _ 2]) (simp add: r0 cL)
    next
      case 3
      show ?thesis by (rule cachesAgree_flat [OF pa(2) _ 3]) (simp add: r0 cR)
    qed
  qed
  then show ?thesis unfolding nodeEventInvariant_def by blast
qed

lemma applyOperation_consistent:
  assumes "consistent m" "applyOperation x m = Some m'"
  shows "consistent m'"
proof (cases x)
  case AddEventToTree
  then show ?thesis
    using assms addEventToTree_consistent [of m m'] by (auto split: sum.splits)
next
  case (AddEventToTreeAt y)
  then show ?thesis
    using assms addEventToTreeAt_consistent [of m y m'] by (auto split: sum.splits)
next
  case (EventMove local)
  then show ?thesis
    using assms eventMove_consistent [of m local m'] by (auto split: sum.splits)
next
  case RevertMovedEventToPrevious
  then show ?thesis
    using assms revertMovedEventToPrevious_consistent [of m m'] by (auto split: sum.splits)
next
  case (InitializeRecord s1 s2 eTime ps)
  then show ?thesis
    using assms initializeRecord_consistent [of m s1 s2 eTime ps m'] by (auto split: sum.splits)
qed

lemma runOperations_consistent:
  "consistent m \<Longrightarrow> runOperations xs m = Some m' \<Longrightarrow> consistent m'"
proof (induction xs arbitrary: m)
  case Nil
  then show ?case by simp
next
  case (Cons x xs)
  obtain m1 where m1: "applyOperation x m = Some m1" and r: "runOperations xs m1 = Some m'"
    using Cons.prems(2) by (cases "applyOperation x m") auto
  have "consistent m1" by (rule applyOperation_consistent [OF Cons.prems(1) m1])
  then show ?case using Cons.IH r by blast
qed

text \<open>C1: in every state reached from a consistent state by a sequence of \<open>addEventToTree\<close>,
  \<open>eventMove\<close>, \<open>revertMovedEventToPrevious\<close> and insertions of the initializer, every node's
  \<open>nodeEvent\<close> is the most-tipward event of the node's own branch history if that is not
  empty, and the \<open>nodeEvent\<close> of its ancestor otherwise.\<close>

theorem nodeEvent_invariant_reachable:
  assumes "consistent m0" and "runOperations xs m0 = Some m"
  shows "nodeEventInvariant m"
  using consistent_invariant [OF runOperations_consistent [OF assms]] .

lemma exModel_consistent: "consistent exModel"
proof -
  have w: "wfTree (root (theTree exModel))" by (simp add: ex_defs wfTree_def)
  have t: "treeOK exModel"
    unfolding treeOK_def using w by (simp add: ex_defs nonRootIds_def)
  have e: "eventsOK exModel" by (simp add: eventsOK_def ex_defs nonRootIds_def)
  have c: "cachesOK exModel" by (simp add: cachesOK_def ex_defs)
  have l: "lastOK exModel" by (simp add: lastOK_def ex_defs)
  show ?thesis using t e c l by (simp add: consistent_def)
qed

theorem nodeEvent_invariant_reachable_witness:
  "consistent exModel \<and> runOperations exOps exModel \<noteq> None \<and>
   nodeEventInvariant (the (runOperations exOps exModel))"
proof -
  have r: "runOperations exOps exModel \<noteq> None" by code_simp
  then have s: "runOperations exOps exModel = Some (the (runOperations exOps exModel))" by simp
  from nodeEvent_invariant_reachable [OF exModel_consistent s] show ?thesis
    using exModel_consistent r by simp
qed

section \<open>Properties: one record of the initializer, in a consistent state\<close>

lemma initializeRecord_insert_consistent:
  assumes x: "resolveNode (theTree m) species1 species2 = Inr x"
    and nr: "\<not> isNode (root (theTree m)) x" and k: "consistent m"
  shows "\<exists>m'. initializeRecord species1 species2 eTime ps m = Inr m' \<and>
           m' = setMeanBranchParameters
                  ((insertedRecord x (rd (mapStart (theTree m) x + rd (time (theTree m) x - eTime))) ps m)
                     \<lparr>histories := forwardSetSpec
                        (insertedRecord x (rd (mapStart (theTree m) x + rd (time (theTree m) x - eTime))) ps m)
                        (nextEvent m)\<rparr>) \<and>
           consistent m' \<and> nodeEventInvariant m'"
proof -
  let ?t = "rd (mapStart (theTree m) x + rd (time (theTree m) x - eTime))"
  let ?mi = "insertedRecord x ?t ps m"
  let ?e = "nextEvent m"
  have t: "treeOK m" and e: "eventsOK m" and c: "cachesOK m"
    using k by (simp_all add: consistent_def)
  have w: "wfTree (root (theTree m))" using t unfolding treeOK_def by blast
  have xin: "x \<in> set (nodeIds (root (theTree m)))"
    using x t unfolding treeOK_def resolveNode_def
    by (auto split: if_splits option.splits)
  obtain \<rho> tL tR where T: "root (theTree m) = Node \<rho> tL tR"
    and g: "getLfDesc (root (theTree m)) = tL" "getRtDesc (root (theTree m)) = tR"
    using wfTree_Node [OF w] by blast
  have xnr: "x \<in> set (nonRootIds (root (theTree m)))"
    using xin nr T g by (auto simp: nonRootIds_def)
  have Ti: "theTree ?mi = theTree m" "rootEvent ?mi = rootEvent m"
    by (simp_all add: insertedRecord_def Let_def)
  have re_ne: "rootEvent m \<noteq> ?e" using e unfolding eventsOK_def by auto
  have wi: "wfTree (root (theTree ?mi))" using w Ti by simp
  have rei: "eventNode (events ?mi (rootEvent ?mi)) = nodeId (root (theTree ?mi))"
    using e re_ne unfolding eventsOK_def by (simp add: insertedRecord_def Let_def)
  have xi: "?e = rootEvent ?mi \<or> eventNode (events ?mi ?e) \<in> set (nonRootIds (root (theTree ?mi)))"
    using xnr insertedRecord_fields(1) [of x ?t ps m] Ti by simp
  have F: "forwardSetBranchHistories ?mi (Some ?e) = Inr (?mi\<lparr>histories := forwardSetSpec ?mi ?e\<rparr>)"
    by (rule forwardSet_repairs(1) [OF wi rei xi])
  have ok: "initializeRecord species1 species2 eTime ps m =
      Inr (setMeanBranchParameters (?mi\<lparr>histories := forwardSetSpec ?mi ?e\<rparr>))"
    using initializeRecord_insert [OF x nr, of eTime ps] F by simp
  have k': "consistent (setMeanBranchParameters (?mi\<lparr>histories := forwardSetSpec ?mi ?e\<rparr>))"
    by (rule initializeRecord_consistent [OF k ok])
  show ?thesis using ok k' consistent_invariant [OF k'] by blast
qed

text \<open>C7, as the code has it: a record that resolves to the root only installs the read
  parameters on the Root Event. A record that resolves to another node \<open>x\<close> constructs a new
  event at the map time \<open>mapStart x + (time x - eTime)\<close> computed in double (the difference
  and the sum each rounded), puts it into the history of \<open>x\<close> and into the Registry,
  forward-sets from it and recomputes the derived means. In a consistent state that pass
  succeeds, the forward-setting is the propagation of the specification, and afterwards
  every node's \<open>nodeEvent\<close> is again the last event of its own history or, without one, its
  ancestor's \<open>nodeEvent\<close>.\<close>

theorem initializeRecord_root_or_insert:
  assumes "resolveNode (theTree m) species1 species2 = Inr x"
  shows "(isNode (root (theTree m)) x \<longrightarrow>
            initializeRecord species1 species2 eTime ps m =
              Inr (m\<lparr>readParameters := ps,
                     events := (events m)(rootEvent m := (events m (rootEvent m))\<lparr>eventParams := ps\<rparr>)\<rparr>)) \<and>
         (\<not> isNode (root (theTree m)) x \<longrightarrow>
            initializeRecord species1 species2 eTime ps m =
              (case forwardSetBranchHistories
                      (insertedRecord x (rd (mapStart (theTree m) x + rd (time (theTree m) x - eTime))) ps m)
                      (Some (nextEvent m)) of
                 Inl e \<Rightarrow> Inl (Propagation e)
               | Inr m4 \<Rightarrow> Inr (setMeanBranchParameters m4))) \<and>
         (\<not> isNode (root (theTree m)) x \<and> consistent m \<longrightarrow>
            (\<exists>m'. initializeRecord species1 species2 eTime ps m = Inr m' \<and>
               m' = setMeanBranchParameters
                  ((insertedRecord x (rd (mapStart (theTree m) x + rd (time (theTree m) x - eTime))) ps m)
                     \<lparr>histories := forwardSetSpec
                        (insertedRecord x (rd (mapStart (theTree m) x + rd (time (theTree m) x - eTime))) ps m)
                        (nextEvent m)\<rparr>) \<and>
               events m' (nextEvent m) =
                 \<lparr>eventNode = x,
                  mapTime = rd (mapStart (theTree m) x + rd (time (theTree m) x - eTime)),
                  oldEventNode = x,
                  oldMapTime = rd (mapStart (theTree m) x + rd (time (theTree m) x - eTime)),
                  eventParams = ps\<rparr> \<and>
               eventsOnBranch (histories m' x) =
                 insertEvent (\<lambda>k. mapTime (events m' k)) (nextEvent m) (eventsOnBranch (histories m x)) \<and>
               eventCollection m' = insertCollection (nextEvent m) (eventCollection m) \<and>
               meanBranch m' = computeMeanBranch m' (histories m') (events m') \<and>
               nodeEvent (histories m' x) = Some (last (eventsOnBranch (histories m' x))) \<and>
               consistent m' \<and> nodeEventInvariant m'))"
proof -
  let ?t = "rd (mapStart (theTree m) x + rd (time (theTree m) x - eTime))"
  let ?mi = "insertedRecord x ?t ps m"
  let ?e = "nextEvent m"
  have post: "\<exists>m'. initializeRecord species1 species2 eTime ps m = Inr m' \<and>
               m' = setMeanBranchParameters (?mi\<lparr>histories := forwardSetSpec ?mi ?e\<rparr>) \<and>
               events m' ?e =
                 \<lparr>eventNode = x, mapTime = ?t, oldEventNode = x, oldMapTime = ?t, eventParams = ps\<rparr> \<and>
               eventsOnBranch (histories m' x) =
                 insertEvent (\<lambda>k. mapTime (events m' k)) ?e (eventsOnBranch (histories m x)) \<and>
               eventCollection m' = insertCollection ?e (eventCollection m) \<and>
               meanBranch m' = computeMeanBranch m' (histories m') (events m') \<and>
               nodeEvent (histories m' x) = Some (last (eventsOnBranch (histories m' x))) \<and>
               consistent m' \<and> nodeEventInvariant m'"
    if nr: "\<not> isNode (root (theTree m)) x" and k: "consistent m"
  proof -
    obtain m' where ok: "initializeRecord species1 species2 eTime ps m = Inr m'"
      and m': "m' = setMeanBranchParameters (?mi\<lparr>histories := forwardSetSpec ?mi ?e\<rparr>)"
      and k': "consistent m'" and inv: "nodeEventInvariant m'"
      using initializeRecord_insert_consistent [OF assms nr k, of eTime ps] by blast
    have ev: "events m' = events ?mi" by (simp add: m' setMeanBranchParameters_def)
    have 1: "events m' ?e =
        \<lparr>eventNode = x, mapTime = ?t, oldEventNode = x, oldMapTime = ?t, eventParams = ps\<rparr>"
      using ev insertedRecord_fields(1) [of x ?t ps m] by simp
    have li: "eventsOnBranch (histories m' j) = eventsOnBranch (histories ?mi j)" for j
      by (simp add: m' setMeanBranchParameters_def forwardSetSpec_def Let_def propagate_events
          split: node.splits)
    have 2: "eventsOnBranch (histories m' x) =
        insertEvent (\<lambda>k. mapTime (events m' k)) ?e (eventsOnBranch (histories m x))"
      unfolding li ev by (simp add: insertedRecord_def Let_def)
    have 3: "eventCollection m' = insertCollection ?e (eventCollection m)"
      by (simp add: m' setMeanBranchParameters_def insertedRecord_def Let_def)
    have 4: "meanBranch m' = computeMeanBranch m' (histories m') (events m')"
      by (simp add: m' setMeanBranchParameters_def)
    have ne: "eventsOnBranch (histories m' x) \<noteq> []" unfolding 2 by (rule insertEvent_nonempty)
    have t: "treeOK m" using k by (simp add: consistent_def)
    have xin: "x \<in> set (nodeIds (root (theTree m)))"
      using assms t unfolding treeOK_def resolveNode_def
      by (auto split: if_splits option.splits)
    have "theTree m' = theTree m"
      by (simp add: m' setMeanBranchParameters_def insertedRecord_def Let_def)
    then have 5: "nodeEvent (histories m' x) = Some (last (eventsOnBranch (histories m' x)))"
      using inv xin ne unfolding nodeEventInvariant_def by auto
    show ?thesis using ok m' 1 2 3 4 5 k' inv by blast
  qed
  show ?thesis
    using initializeRecord_root [OF assms, of eTime ps] initializeRecord_insert [OF assms, of eTime ps]
      post by blast
qed

theorem initializeRecord_root_or_insert_witness:
  "resolveNode (theTree exModel) ''A'' ''NA'' = Inr 1 \<and> \<not> isNode (root (theTree exModel)) 1 \<and>
   consistent exModel \<and>
   \<not> isl (initializeRecord ''A'' ''NA'' (1 / 2) () exModel) \<and>
   mapTime (events (projr (initializeRecord ''A'' ''NA'' (1 / 2) () exModel)) (nextEvent exModel)) = 1 / 2 \<and>
   nextEvent exModel \<in> set (eventCollection (projr (initializeRecord ''A'' ''NA'' (1 / 2) () exModel))) \<and>
   nodeEvent (histories (projr (initializeRecord ''A'' ''NA'' (1 / 2) () exModel)) 2) = Some 1 \<and>
   nodeEventInvariant (projr (initializeRecord ''A'' ''NA'' (1 / 2) () exModel)) \<and>
   resolveNode (theTree exModel) ''R'' ''NA'' = Inr 0 \<and> isNode (root (theTree exModel)) 0 \<and>
   eventCollection (projr (initializeRecord ''R'' ''NA'' (1 / 2) () exModel)) = eventCollection exModel"
proof -
  have h1: "resolveNode (theTree exModel) ''A'' ''NA'' = Inr 1" by (simp add: ex_defs resolveNode_def)
  have h2: "\<not> isNode (root (theTree exModel)) 1" by (simp add: ex_defs)
  have h4: "resolveNode (theTree exModel) ''R'' ''NA'' = Inr 0" by (simp add: ex_defs resolveNode_def)
  have h5: "isNode (root (theTree exModel)) 0" by (simp add: ex_defs)
  note A = initializeRecord_root_or_insert [OF h1, of "1 / 2" "()"]
  note R = initializeRecord_root_or_insert [OF h4, of "1 / 2" "()"]
  obtain m' where ok: "initializeRecord ''A'' ''NA'' (1 / 2) () exModel = Inr m'"
    and ev: "events m' (nextEvent exModel) =
       \<lparr>eventNode = 1,
        mapTime = rd (mapStart (theTree exModel) 1 + rd (time (theTree exModel) 1 - 1 / 2)),
        oldEventNode = 1,
        oldMapTime = rd (mapStart (theTree exModel) 1 + rd (time (theTree exModel) 1 - 1 / 2)),
        eventParams = ()\<rparr>"
    and ec: "eventCollection m' = insertCollection (nextEvent exModel) (eventCollection exModel)"
    and inv: "nodeEventInvariant m'"
    using A h2 exModel_consistent by blast
  have t: "rd (mapStart (theTree exModel) 1 + rd (time (theTree exModel) 1 - 1 / 2)) = 1 / 2"
    by code_simp
  have n2: "nodeEvent (histories (projr (initializeRecord ''A'' ''NA'' (1 / 2) () exModel)) 2) = Some 1"
    by code_simp
  have r: "eventCollection (projr (initializeRecord ''R'' ''NA'' (1 / 2) () exModel)) =
      eventCollection exModel"
    using R h5 by simp
  show ?thesis
    using h1 h2 h4 h5 exModel_consistent ok ev ec inv t n2 r by (simp add: set_insertCollection)
qed

text \<open>For a record at node 1 (map start 0, time 1) with the event time 0.1 (the double
  nearest to it), the new event's map time is the double 0.9, not \<open>0 + (1 - 0.1)\<close>.\<close>

theorem initializeRecord_position_counterexample:
  "resolveNode (theTree exModel) ''A'' ''NA'' = Inr 1 \<and> \<not> isNode (root (theTree exModel)) 1 \<and>
   isDouble (3602879701896397 / 36028797018963968) \<and>
   \<not> isl (initializeRecord ''A'' ''NA'' (3602879701896397 / 36028797018963968) () exModel) \<and>
   mapTime (events (projr (initializeRecord ''A'' ''NA'' (3602879701896397 / 36028797018963968) () exModel))
       (nextEvent exModel)) = 8106479329266893 / 9007199254740992 \<and>
   mapStart (theTree exModel) 1 + (time (theTree exModel) 1 - 3602879701896397 / 36028797018963968) =
     32425917317067571 / 36028797018963968 \<and>
   mapTime (events (projr (initializeRecord ''A'' ''NA'' (3602879701896397 / 36028797018963968) () exModel))
       (nextEvent exModel)) \<noteq>
     mapStart (theTree exModel) 1 + (time (theTree exModel) 1 - 3602879701896397 / 36028797018963968)"
proof -
  have h1: "resolveNode (theTree exModel) ''A'' ''NA'' = Inr 1" by (simp add: ex_defs resolveNode_def)
  have h2: "\<not> isNode (root (theTree exModel)) 1" by (simp add: ex_defs)
  have h3: "isDouble (3602879701896397 / 36028797018963968)" by code_simp
  have h4: "\<not> isl (initializeRecord ''A'' ''NA'' (3602879701896397 / 36028797018963968) () exModel)"
    by code_simp
  have h5: "mapTime (events (projr (initializeRecord ''A'' ''NA'' (3602879701896397 / 36028797018963968) () exModel))
       (nextEvent exModel)) = 8106479329266893 / 9007199254740992" by code_simp
  have h6: "mapStart (theTree exModel) 1 + (time (theTree exModel) 1 - 3602879701896397 / 36028797018963968) =
     32425917317067571 / 36028797018963968" by (simp add: ex_defs)
  show ?thesis using h1 h2 h3 h4 h5 h6 by simp
qed

section \<open>Properties: what forward-setting does to a shielded subtree\<close>

lemma visited_cong:
  "(\<And>j. j \<in> set (nodeIds p) \<Longrightarrow> eventsOnBranch (h j) = eventsOnBranch (h' j)) \<Longrightarrow>
   visited h p = visited h' p"
  by (induction p) auto

lemma propagate_unvisited: "j \<notin> visited h p \<Longrightarrow> propagate h a p j = h j"
proof (induction p arbitrary: h a)
  case NULL
  then show ?case by simp
next
  case (Node i l r)
  let ?v = "nodeEvent (h a)"
  let ?h1 = "h(i := (h i)\<lparr>ancestralNodeEvent := ?v\<rparr>)"
  let ?h2 = "?h1(i := (?h1 i)\<lparr>nodeEvent := ?v\<rparr>)"
  have ji: "j \<noteq> i" using Node.prems by auto
  show ?case
  proof (cases "eventsOnBranch (h i) = []")
    case False
    then show ?thesis using ji by (simp add: Let_def)
  next
    case True
    have vl: "visited ?h2 l = visited h l" by (rule visited_cong) simp
    have vr: "visited (propagate ?h2 i l) r = visited h r"
      by (rule visited_cong) (simp add: propagate_events)
    have jl: "j \<notin> visited ?h2 l" and jr: "j \<notin> visited (propagate ?h2 i l) r"
      using Node.prems True vl vr by auto
    have res: "propagate h a (Node i l r) = propagate (propagate ?h2 i l) i r"
      using True by (simp add: Let_def)
    have "propagate (propagate ?h2 i l) i r j = propagate ?h2 i l j" by (rule Node.IH(2) [OF jr])
    also have "\<dots> = ?h2 j" by (rule Node.IH(1) [OF jl])
    also have "\<dots> = h j" using ji by simp
    finally show ?thesis unfolding res .
  qed
qed

lemma propagate_reached:
  "distinct (nodeIds p) \<Longrightarrow> a \<notin> set (nodeIds p) \<Longrightarrow> parentsAgree T a p \<Longrightarrow> k \<in> visited h p \<Longrightarrow>
   \<exists>b. getAnc T k = Some b \<and> (b = a \<or> b \<in> set (nodeIds p)) \<and>
       ancestralNodeEvent (propagate h a p k) = nodeEvent (propagate h a p b)"
proof (induction p arbitrary: h a)
  case NULL
  then show ?case by simp
next
  case (Node i l r)
  let ?v = "nodeEvent (h a)"
  let ?h1 = "h(i := (h i)\<lparr>ancestralNodeEvent := ?v\<rparr>)"
  let ?h2 = "?h1(i := (?h1 i)\<lparr>nodeEvent := ?v\<rparr>)"
  let ?res = "propagate h a (Node i l r)"
  have anc: "getAnc T i = Some a" and pl: "parentsAgree T i l" and pr: "parentsAgree T i r"
    using Node.prems(3) by simp_all
  have dl: "distinct (nodeIds l)" and dr: "distinct (nodeIds r)"
    and il: "i \<notin> set (nodeIds l)" and ir: "i \<notin> set (nodeIds r)"
    and lr: "set (nodeIds l) \<inter> set (nodeIds r) = {}"
    using Node.prems(1) by auto
  have ai: "a \<noteq> i" using Node.prems(2) by auto
  have aP: "?res a = h a" by (rule propagate_frame [OF Node.prems(2)])
  show ?case
  proof (cases "k = i")
    case True
    have "ancestralNodeEvent (?res i) = ?v"
    proof (cases "eventsOnBranch (h i) = []")
      case False
      then show ?thesis by (simp add: Let_def)
    next
      case E: True
      have res: "?res = propagate (propagate ?h2 i l) i r" using E by (simp add: Let_def)
      have "propagate (propagate ?h2 i l) i r i = ?h2 i" using il ir by (simp add: propagate_frame)
      then show ?thesis unfolding res by simp
    qed
    then show ?thesis using True anc aP by auto
  next
    case False
    then have E: "eventsOnBranch (h i) = []" and kv: "k \<in> visited h l \<union> visited h r"
      using Node.prems(4) by (auto split: if_splits)
    have res: "?res = propagate (propagate ?h2 i l) i r" using E by (simp add: Let_def)
    have vl: "visited ?h2 l = visited h l" by (rule visited_cong) simp
    have vr: "visited (propagate ?h2 i l) r = visited h r"
      by (rule visited_cong) (simp add: propagate_events)
    from kv show ?thesis
    proof
      assume "k \<in> visited h l"
      then have k2: "k \<in> visited ?h2 l" using vl by simp
      obtain b where b: "getAnc T k = Some b" "b = i \<or> b \<in> set (nodeIds l)"
        "ancestralNodeEvent (propagate ?h2 i l k) = nodeEvent (propagate ?h2 i l b)"
        using Node.IH(1) [OF dl il pl k2] by blast
      have kl: "k \<in> set (nodeIds l)" using k2 visited_ids by blast
      have knr: "k \<notin> set (nodeIds r)" using kl lr by auto
      have bnr: "b \<notin> set (nodeIds r)" using b(2) ir lr by auto
      have "ancestralNodeEvent (?res k) = nodeEvent (?res b)"
        unfolding res using b(3) knr bnr by (simp add: propagate_frame)
      then show ?thesis using b(1,2) by auto
    next
      assume "k \<in> visited h r"
      then have k2: "k \<in> visited (propagate ?h2 i l) r" using vr by simp
      obtain b where b: "getAnc T k = Some b" "b = i \<or> b \<in> set (nodeIds r)"
        "ancestralNodeEvent (propagate (propagate ?h2 i l) i r k) =
         nodeEvent (propagate (propagate ?h2 i l) i r b)"
        using Node.IH(2) [OF dr ir pr k2] by blast
      show ?thesis unfolding res using b by auto
    qed
  qed
qed

lemma propagate2_unvisited:
  "j \<notin> visited h l \<Longrightarrow> j \<notin> visited h r \<Longrightarrow> propagate (propagate h i l) i r j = h j"
proof -
  assume jl: "j \<notin> visited h l" and jr: "j \<notin> visited h r"
  have vr: "visited (propagate h i l) r = visited h r"
    by (rule visited_cong) (simp add: propagate_events)
  have "propagate (propagate h i l) i r j = propagate h i l j"
    by (rule propagate_unvisited) (simp add: vr jr)
  then show ?thesis using propagate_unvisited [OF jl] by simp
qed

lemma propagate2_reached:
  assumes d: "distinct (nodeIds (Node i l r))"
    and pl: "parentsAgree T i l" and pr: "parentsAgree T i r"
    and k: "k \<in> visited h l \<union> visited h r"
  shows "\<exists>b. getAnc T k = Some b \<and>
       ancestralNodeEvent (propagate (propagate h i l) i r k) =
       nodeEvent (propagate (propagate h i l) i r b)"
proof -
  have dl: "distinct (nodeIds l)" and dr: "distinct (nodeIds r)"
    and il: "i \<notin> set (nodeIds l)" and ir: "i \<notin> set (nodeIds r)"
    and lr: "set (nodeIds l) \<inter> set (nodeIds r) = {}"
    using d by auto
  have vr: "visited (propagate h i l) r = visited h r"
    by (rule visited_cong) (simp add: propagate_events)
  from k show ?thesis
  proof
    assume kl: "k \<in> visited h l"
    obtain b where b: "getAnc T k = Some b" "b = i \<or> b \<in> set (nodeIds l)"
      "ancestralNodeEvent (propagate h i l k) = nodeEvent (propagate h i l b)"
      using propagate_reached [OF dl il pl kl] by blast
    have "k \<in> set (nodeIds l)" using kl visited_ids by blast
    then have knr: "k \<notin> set (nodeIds r)" using lr by auto
    have bnr: "b \<notin> set (nodeIds r)" using b(2) ir lr by auto
    have "ancestralNodeEvent (propagate (propagate h i l) i r k) =
          nodeEvent (propagate (propagate h i l) i r b)"
      using b(3) knr bnr by (simp add: propagate_frame)
    then show ?thesis using b(1) by auto
  next
    assume "k \<in> visited h r"
    then have k2: "k \<in> visited (propagate h i l) r" using vr by simp
    show ?thesis using propagate_reached [OF dr ir pr k2] by blast
  qed
qed

lemma forwardSetSpec_cases:
  assumes f: "findNode (root (theTree m)) (eventNode (events m x)) = Node i l r"
    and rt: "x = rootEvent m \<longrightarrow> root (theTree m) = Node i l r"
  shows "forwardSetSpec m x =
     (if x = rootEvent m then propagate (propagate (histories m) i l) i r
      else if getLastEvent (histories m i) = Some x
      then propagate (propagate ((histories m)(i := (histories m i)\<lparr>nodeEvent := Some x\<rparr>)) i l) i r
      else histories m)"
proof -
  have n: "l = NULL \<and> r = NULL \<Longrightarrow>
      propagate (propagate ((histories m)(i := (histories m i)\<lparr>nodeEvent := Some x\<rparr>)) i l) i r =
      (histories m)(i := (histories m i)\<lparr>nodeEvent := Some x\<rparr>)"
    by simp
  show ?thesis using f rt n by (auto simp: forwardSetSpec_def Let_def)
qed

text \<open>C4, as the code has it. Forward-setting from an event \<open>x\<close> on node \<open>i\<close> succeeds. For
  a node \<open>k\<close> strictly below \<open>i\<close> whose own history is not empty it leaves \<open>nodeEvent\<close> of \<open>k\<close>
  and both references of every node strictly below \<open>k\<close> unchanged. The \<open>ancestralNodeEvent\<close>
  of \<open>k\<close> itself is overwritten with the \<open>nodeEvent\<close> of \<open>k\<close>'s parent if the descent reaches
  \<open>k\<close> (\<open>x\<close> is the Root Event or the most-tipward event of \<open>i\<close>, and every node strictly
  between \<open>i\<close> and \<open>k\<close> has an empty history), and is unchanged otherwise. On \<open>i\<close> itself
  \<open>ancestralNodeEvent\<close> is unchanged, and \<open>nodeEvent\<close> is set to \<open>x\<close> if \<open>x\<close> is not the Root
  Event and is the most-tipward event of \<open>i\<close>, also when an event closer to the root sits on
  the same branch; otherwise it is unchanged. Nodes outside the subtree of \<open>i\<close> are
  unchanged.\<close>

theorem forwardSet_shielded_subtree:
  assumes "distinct (nodeIds (root (theTree m)))"
    and "binary (root (theTree m))"
    and "x = rootEvent m \<longrightarrow>
           isNode (root (theTree m)) (eventNode (events m x)) \<and>
           getLfDesc (root (theTree m)) \<noteq> NULL"
    and "findNode (root (theTree m)) (eventNode (events m x)) = Node i l r"
    and "Node k kl kr \<in> set (subtrees l) \<union> set (subtrees r)"
    and "eventsOnBranch (histories m k) \<noteq> []"
  shows "\<exists>m'. forwardSetBranchHistories m (Some x) = Inr m' \<and>
           nodeEvent (histories m' k) = nodeEvent (histories m k) \<and>
           (\<forall>d \<in> set (nodeIds kl) \<union> set (nodeIds kr). histories m' d = histories m d) \<and>
           (\<exists>a. getAnc (root (theTree m)) k = Some a \<and>
              ancestralNodeEvent (histories m' k) =
                (if (x = rootEvent m \<or> getLastEvent (histories m i) = Some x) \<and>
                    k \<in> visited (histories m) l \<union> visited (histories m) r
                 then nodeEvent (histories m' a)
                 else ancestralNodeEvent (histories m k))) \<and>
           ancestralNodeEvent (histories m' i) = ancestralNodeEvent (histories m i) \<and>
           nodeEvent (histories m' i) =
             (if x \<noteq> rootEvent m \<and> getLastEvent (histories m i) = Some x then Some x
              else nodeEvent (histories m i)) \<and>
           (\<forall>j. j \<notin> set (nodeIds (Node i l r)) \<longrightarrow> histories m' j = histories m j)"
proof -
  let ?T = "root (theTree m)"
  let ?h = "histories m"
  let ?h1 = "?h(i := (?h i)\<lparr>nodeEvent := Some x\<rparr>)"
  let ?h' = "forwardSetSpec m x"
  let ?fires = "x = rootEvent m \<or> getLastEvent (?h i) = Some x"
  have i: "i = eventNode (events m x)" and s: "Node i l r \<in> set (subtrees ?T)"
    using findNode_Node [OF assms(4)] by blast+
  have iin: "eventNode (events m x) \<in> set (nodeIds ?T)"
    using subtrees_ids [OF s] i by auto
  have rt: "x = rootEvent m \<longrightarrow> ?T = Node i l r"
    using assms(3,4) isNode_findNode by metis
  have d: "distinct (nodeIds (Node i l r))" using subtrees_distinct [OF assms(1) s] .
  have il: "i \<notin> set (nodeIds l)" and ir: "i \<notin> set (nodeIds r)" using d by auto
  have pa: "parentsAgree ?T i l" "parentsAgree ?T i r"
    using parentsAgree_children [OF assms(1) s] by blast+
  have ksub: "set (nodeIds (Node k kl kr)) \<subseteq> set (nodeIds l) \<union> set (nodeIds r)"
    using assms(5) subtrees_ids by blast
  have kin: "k \<in> set (nodeIds l) \<union> set (nodeIds r)" using ksub by auto
  have ki: "k \<noteq> i" using kin il ir by auto
  have 1: "forwardSetBranchHistories m (Some x) = Inr (m\<lparr>histories := ?h'\<rparr>)"
    using fSBH_spec [OF assms(1,2) iin assms(3)] .
  note sh = forwardSetSpec_shielded [OF assms(4) rt d assms(5,6)]
  note fr = forwardSetSpec_frame [OF assms(4) rt]
  note cs = forwardSetSpec_cases [OF assms(4) rt]
  have v1: "visited ?h1 l = visited ?h l" "visited ?h1 r = visited ?h r"
    by (rule visited_cong, simp)+
  have kT: "k \<in> set (nodeIds ?T)" using kin subtrees_ids [OF s] by auto
  obtain a where a: "getAnc ?T k = Some a"
  proof -
    have "\<exists>a. getAnc ?T k = Some a"
    proof -
      have "\<forall>p \<in> {l, r}. \<forall>b. parentsAgree ?T b p \<longrightarrow> k \<in> set (nodeIds p) \<longrightarrow> (\<exists>a. getAnc ?T k = Some a)"
      proof -
        have g: "parentsAgree ?T b p \<Longrightarrow> k \<in> set (nodeIds p) \<Longrightarrow> \<exists>a. getAnc ?T k = Some a" for b p
          by (induction p arbitrary: b) auto
        show ?thesis using g by blast
      qed
      then show ?thesis using pa kin by auto
    qed
    then show ?thesis using that by blast
  qed
  have anc: "ancestralNodeEvent (?h' k) =
      (if ?fires \<and> k \<in> visited ?h l \<union> visited ?h r then nodeEvent (?h' a)
       else ancestralNodeEvent (?h k))"
  proof (cases "?fires \<and> k \<in> visited ?h l \<union> visited ?h r")
    case True
    then have kv: "k \<in> visited ?h l \<union> visited ?h r" by simp
    show ?thesis
    proof (cases "x = rootEvent m")
      case R: True
      obtain b where b: "getAnc ?T k = Some b"
        "ancestralNodeEvent (propagate (propagate ?h i l) i r k) =
         nodeEvent (propagate (propagate ?h i l) i r b)"
        using propagate2_reached [OF d pa kv] by blast
      then show ?thesis using True R a cs by simp
    next
      case False
      then have L: "getLastEvent (?h i) = Some x" using True by simp
      have kv1: "k \<in> visited ?h1 l \<union> visited ?h1 r" using kv v1 by simp
      obtain b where b: "getAnc ?T k = Some b"
        "ancestralNodeEvent (propagate (propagate ?h1 i l) i r k) =
         nodeEvent (propagate (propagate ?h1 i l) i r b)"
        using propagate2_reached [OF d pa kv1] by blast
      have hS: "?h' = propagate (propagate ?h1 i l) i r" using cs False L by simp
      show ?thesis using True a b unfolding hS by simp
    qed
  next
    case False
    have "?h' k = ?h k"
    proof (cases "x = rootEvent m")
      case R: True
      then have "k \<notin> visited ?h l" "k \<notin> visited ?h r" using False by simp_all
      then show ?thesis using cs R by (simp add: propagate2_unvisited)
    next
      case NR: False
      show ?thesis
      proof (cases "getLastEvent (?h i) = Some x")
        case L: True
        then have "k \<notin> visited ?h1 l" "k \<notin> visited ?h1 r" using False v1 by simp_all
        then have "propagate (propagate ?h1 i l) i r k = ?h1 k" by (rule propagate2_unvisited)
        then show ?thesis using cs NR L ki by simp
      next
        case False
        then show ?thesis using cs NR by simp
      qed
    qed
    then have "ancestralNodeEvent (?h' k) = ancestralNodeEvent (?h k)" by simp
    then show ?thesis using False by (simp only: if_False)
  qed
  have own: "?h' i = (if x \<noteq> rootEvent m \<and> getLastEvent (?h i) = Some x then ?h1 i else ?h i)"
    using cs il ir by (simp add: propagate_frame)
  have own1: "ancestralNodeEvent (?h' i) = ancestralNodeEvent (?h i)" using own by simp
  have own2: "nodeEvent (?h' i) =
      (if x \<noteq> rootEvent m \<and> getLastEvent (?h i) = Some x then Some x else nodeEvent (?h i))"
    using own by simp
  show ?thesis
    using 1 sh fr a anc own1 own2 by simp
qed

theorem forwardSet_shielded_subtree_witness:
  "distinct (nodeIds (root (theTree exStale))) \<and> binary (root (theTree exStale)) \<and>
   0 = rootEvent exStale \<and> isNode (root (theTree exStale)) (eventNode (events exStale 0)) \<and>
   getLfDesc (root (theTree exStale)) \<noteq> NULL \<and>
   findNode (root (theTree exStale)) (eventNode (events exStale 0)) =
     Node 0 (Node 1 (Node 2 NULL NULL) (Node 3 NULL NULL)) (Node 4 (Node 5 NULL NULL) (Node 6 NULL NULL)) \<and>
   Node 1 (Node 2 NULL NULL) (Node 3 NULL NULL) \<in>
     set (subtrees (Node 1 (Node 2 NULL NULL) (Node 3 NULL NULL))) \<union>
     set (subtrees (Node 4 (Node 5 NULL NULL) (Node 6 NULL NULL))) \<and>
   eventsOnBranch (histories exStale 1) \<noteq> [] \<and>
   \<not> isl (forwardSetBranchHistories exStale (Some 0)) \<and>
   nodeEvent (histories (projr (forwardSetBranchHistories exStale (Some 0))) 1) = Some 1 \<and>
   histories (projr (forwardSetBranchHistories exStale (Some 0))) 2 = histories exStale 2 \<and>
   histories (projr (forwardSetBranchHistories exStale (Some 0))) 3 = histories exStale 3 \<and>
   ancestralNodeEvent (histories exStale 1) = Some 3 \<and>
   ancestralNodeEvent (histories (projr (forwardSetBranchHistories exStale (Some 0))) 1) = Some 0 \<and>
   nodeEvent (histories (projr (forwardSetBranchHistories exStale (Some 0))) 0) = Some 0"
proof -
  let ?l = "Node 1 (Node 2 NULL NULL) (Node 3 NULL NULL)"
  let ?r = "Node 4 (Node 5 NULL NULL) (Node 6 NULL NULL)"
  have h1: "distinct (nodeIds (root (theTree exStale)))" by (simp add: exStale_def ex_defs)
  have h2: "binary (root (theTree exStale))" by (simp add: exStale_def ex_defs)
  have h3: "0 = rootEvent exStale" "isNode (root (theTree exStale)) (eventNode (events exStale 0))"
    "getLfDesc (root (theTree exStale)) \<noteq> NULL"
    by (simp_all add: exStale_def ex_defs)
  have h4: "findNode (root (theTree exStale)) (eventNode (events exStale 0)) = Node 0 ?l ?r"
    by (simp add: exStale_def ex_defs)
  have h5: "Node 1 (Node 2 NULL NULL) (Node 3 NULL NULL) \<in> set (subtrees ?l) \<union> set (subtrees ?r)"
    by simp
  have h6: "eventsOnBranch (histories exStale 1) \<noteq> []" by (simp add: exStale_def ex_defs)
  have v: "1 \<in> visited (histories exStale) ?l \<union> visited (histories exStale) ?r" by simp
  have g: "getAnc (root (theTree exStale)) 1 = Some 0" by (simp add: exStale_def ex_defs)
  have o: "nodeEvent (histories exStale 1) = Some 1" "ancestralNodeEvent (histories exStale 1) = Some 3"
    "nodeEvent (histories exStale 0) = Some 0"
    by (simp_all add: exStale_def ex_defs)
  obtain m' where ok: "forwardSetBranchHistories exStale (Some 0) = Inr m'"
    and 1: "nodeEvent (histories m' 1) = nodeEvent (histories exStale 1)"
    and 2: "\<forall>d \<in> set (nodeIds (Node 2 NULL NULL)) \<union> set (nodeIds (Node 3 NULL NULL)).
              histories m' d = histories exStale d"
    and 3: "\<exists>a. getAnc (root (theTree exStale)) 1 = Some a \<and>
              ancestralNodeEvent (histories m' 1) =
                (if (0 = rootEvent exStale \<or> getLastEvent (histories exStale 0) = Some 0) \<and>
                    1 \<in> visited (histories exStale) ?l \<union> visited (histories exStale) ?r
                 then nodeEvent (histories m' a)
                 else ancestralNodeEvent (histories exStale 1))"
    and 4: "nodeEvent (histories m' 0) =
             (if 0 \<noteq> rootEvent exStale \<and> getLastEvent (histories exStale 0) = Some 0 then Some 0
              else nodeEvent (histories exStale 0))"
    using forwardSet_shielded_subtree [of exStale 0 0 ?l ?r 1 "Node 2 NULL NULL" "Node 3 NULL NULL",
        OF h1 h2 _ h4 h5 h6] h3 by blast
  have p: "projr (forwardSetBranchHistories exStale (Some 0)) = m'" using ok by simp
  have n0: "nodeEvent (histories m' 0) = Some 0" using 4 h3(1) o(3) by simp
  have a1: "ancestralNodeEvent (histories m' 1) = Some 0" using 3 g v h3(1) n0 by simp
  have "\<not> isl (forwardSetBranchHistories exStale (Some 0))" using ok by simp
  then show ?thesis
    unfolding p using h1 h2 h3 h4 h5 h6 1 2 o n0 a1 by simp
qed

text \<open>Forward-setting from event 2 on node 1, whose branch carries event 1 rootward of it,
  changes \<open>nodeEvent\<close> of node 1; and it changes \<open>ancestralNodeEvent\<close> of tip 2, whose
  own branch carries an event.\<close>

theorem forwardSet_shielded_counterexample:
  "eventsOnBranch (histories exShield 1) = [1, 2] \<and>
   mapTime (events exShield 1) < mapTime (events exShield 2) \<and>
   eventNode (events exShield 2) = 1 \<and>
   nodeEvent (histories exShield 1) = Some 1 \<and>
   eventsOnBranch (histories exShield 2) = [3] \<and>
   ancestralNodeEvent (histories exShield 2) = Some 1 \<and>
   map_sum id (\<lambda>m. (nodeEvent (histories m 1), ancestralNodeEvent (histories m 2)))
     (forwardSetBranchHistories exShield (Some 2)) = Inr (Some 2, Some 2)"
  by (simp add: ex_defs getLastEvent_def setNodeEvent_def setAncestralNodeEvent_def
      getNumberOfBranchEvents_def Let_def)

end
